theory Spec2Isabelle
  imports Main "HOL-Library.Sublist"
begin

section \<open>Python strings\<close>

text \<open>
  A Python \<open>str\<close> is modelled as a \<open>string\<close>, one \<open>char\<close> per code point, so the
  model covers the code points below 256. The string methods the scraper calls are
  written out below with the behaviour they have on that range.
\<close>

definition lower_char :: "char \<Rightarrow> char" where
  \<comment> \<open>\<open>str.lower\<close> on one code point: A-Z, and the upper-case letters of Latin-1.\<close>
  "lower_char c =
     (let n = (of_char c :: nat)
      in if (65 \<le> n \<and> n \<le> 90) \<or> (192 \<le> n \<and> n \<le> 222 \<and> n \<noteq> 215)
         then char_of (n + 32) else c)"

definition lower :: "string \<Rightarrow> string" where
  "lower s = map lower_char s"

definition isspace :: "char \<Rightarrow> bool" where
  \<comment> \<open>\<open>str.isspace\<close> on one code point.\<close>
  "isspace c =
     (let n = (of_char c :: nat)
      in (9 \<le> n \<and> n \<le> 13) \<or> (28 \<le> n \<and> n \<le> 32) \<or> n = 133 \<or> n = 160)"

definition strip :: "string \<Rightarrow> string" where
  \<comment> \<open>\<open>s.strip()\<close>\<close>
  "strip s = rev (dropWhile isspace (rev (dropWhile isspace s)))"

definition rstrip_char :: "char \<Rightarrow> string \<Rightarrow> string" where
  \<comment> \<open>\<open>s.rstrip(c)\<close> for a one-character argument\<close>
  "rstrip_char c s = rev (dropWhile (\<lambda>x. x = c) (rev s))"

fun str_in :: "string \<Rightarrow> string \<Rightarrow> bool" where
  \<comment> \<open>\<open>p in s\<close>: \<open>p\<close> occurs in \<open>s\<close> as a contiguous substring\<close>
  "str_in p [] = (p = [])"
| "str_in p (c # cs) = (prefix p (c # cs) \<or> str_in p cs)"

definition startswith :: "string \<Rightarrow> string \<Rightarrow> bool" where
  "startswith s p = (take (length p) s = p)"

definition endswith :: "string \<Rightarrow> string \<Rightarrow> bool" where
  "endswith s p = (length p \<le> length s \<and> drop (length s - length p) s = p)"

definition split1 :: "char \<Rightarrow> string \<Rightarrow> string \<times> string" where
  \<comment> \<open>\<open>s.split(c, 1)\<close> when \<open>c in s\<close>: the text before the first \<open>c\<close>, and the text after it\<close>
  "split1 c s = (takeWhile (\<lambda>x. x \<noteq> c) s, drop 1 (dropWhile (\<lambda>x. x \<noteq> c) s))"

definition slice_to :: "int \<Rightarrow> 'a list \<Rightarrow> 'a list" where
  \<comment> \<open>\<open>xs[:n]\<close>: a negative \<open>n\<close> counts from the end, and the bound is clamped\<close>
  "slice_to n xs =
     (if n < 0 then take (nat (int (length xs) + n)) xs else take (nat n) xs)"

section \<open>The standard library's URL parser\<close>

text \<open>
  \<open>urllib.parse.urlparse\<close> as CPython 3.11 defines it, for \<open>str\<close> arguments and the
  default \<open>scheme=''\<close>, \<open>allow_fragments=True\<close>. It raises \<open>ValueError\<close> on a host with
  unbalanced brackets, and on a bracketed host that \<open>_check_bracketed_host\<close> refuses. That
  helper validates the host with the \<open>ipaddress\<close> module; it is a parameter here,
  returning the message of the \<open>ValueError\<close> it raises, or \<open>None\<close> when it returns.
  \<open>_checknetloc\<close> raises only for a host that NFKC normalisation changes into one with
  a delimiter; no code point below 256 does that, so it has no branch here.
\<close>

datatype exn = ValueError string | AttributeError string

record parse_result =
  scheme :: string
  netloc :: string
  path :: string
  params :: string
  query :: string
  fragment :: string

definition WHATWG_C0_CONTROL_OR_SPACE :: "char \<Rightarrow> bool" where
  "WHATWG_C0_CONTROL_OR_SPACE c = ((of_char c :: nat) \<le> 32)"

definition UNSAFE_URL_BYTES_TO_REMOVE :: "char list" where
  "UNSAFE_URL_BYTES_TO_REMOVE = [CHR 0x09, CHR 0x0D, CHR 0x0A]"

definition scheme_chars :: string where
  "scheme_chars =
     ''abcdefghijklmnopqrstuvwxyz'' @ ''ABCDEFGHIJKLMNOPQRSTUVWXYZ'' @ ''0123456789'' @ ''+-.''"

definition uses_params :: "string list" where
  "uses_params = ['''', ''ftp'', ''hdl'', ''prospero'', ''http'', ''imap'',
                  ''https'', ''shttp'', ''rtsp'', ''rtsps'', ''rtspu'', ''sip'',
                  ''sips'', ''mms'', ''sftp'', ''tel'']"

definition isascii_isalpha :: "char \<Rightarrow> bool" where
  \<comment> \<open>\<open>c.isascii() and c.isalpha()\<close>\<close>
  "isascii_isalpha c =
     (let n = (of_char c :: nat) in (65 \<le> n \<and> n \<le> 90) \<or> (97 \<le> n \<and> n \<le> 122))"

definition split_scheme :: "string \<Rightarrow> string \<times> string" where
  \<comment> \<open>The \<open>i = url.find(':')\<close> block of \<open>urlsplit\<close>: \<open>i > 0\<close> says that a colon occurs and is
      not the first character; \<open>url[:i]\<close> is the text before it.\<close>
  "split_scheme url =
     (let pre = takeWhile (\<lambda>c. c \<noteq> CHR '':'') url
      in if CHR '':'' \<in> set url \<and> pre \<noteq> [] \<and> isascii_isalpha (hd url)
            \<and> list_all (\<lambda>c. c \<in> set scheme_chars) pre
         then (lower pre, drop (length pre + 1) url)
         else ([], url))"

definition netloc_delim :: "char \<Rightarrow> bool" where
  "netloc_delim c = (c = CHR ''/'' \<or> c = CHR ''?'' \<or> c = CHR ''#'')"

definition splitnetloc :: "string \<Rightarrow> string \<times> string" where
  \<comment> \<open>\<open>_splitnetloc(url, 2)\<close>: the host runs from index 2 to the earliest of \<open>/ ? #\<close>\<close>
  "splitnetloc url =
     (let r = drop 2 url
      in (takeWhile (\<lambda>c. \<not> netloc_delim c) r, dropWhile (\<lambda>c. \<not> netloc_delim c) r))"

definition bracketed_host :: "string \<Rightarrow> string" where
  \<comment> \<open>\<open>netloc.partition('[')[2].partition(']')[0]\<close>\<close>
  "bracketed_host nl =
     takeWhile (\<lambda>c. c \<noteq> CHR '']'') (drop 1 (dropWhile (\<lambda>c. c \<noteq> CHR ''['') nl))"

definition urlsplit :: "(string \<Rightarrow> string option) \<Rightarrow> string \<Rightarrow> exn + parse_result" where
  "urlsplit check_bracketed_host url0 =
     (let url = dropWhile WHATWG_C0_CONTROL_OR_SPACE url0;
          url = filter (\<lambda>c. c \<notin> set UNSAFE_URL_BYTES_TO_REMOVE) url;
          (scheme, url) = split_scheme url;
          (netloc, url) = (if take 2 url = ''//'' then splitnetloc url else ([], url))
      in if (CHR ''['' \<in> set netloc \<and> CHR '']'' \<notin> set netloc)
            \<or> (CHR '']'' \<in> set netloc \<and> CHR ''['' \<notin> set netloc)
         then Inl (ValueError ''Invalid IPv6 URL'')
         else
           case (if CHR ''['' \<in> set netloc \<and> CHR '']'' \<in> set netloc
                 then check_bracketed_host (bracketed_host netloc) else None) of
             Some msg \<Rightarrow> Inl (ValueError msg)
           | None \<Rightarrow>
               (let (url, fragment) =
                      (if CHR ''#'' \<in> set url then split1 (CHR ''#'') url else (url, []));
                    (url, query) =
                      (if CHR ''?'' \<in> set url then split1 (CHR ''?'') url else (url, []))
                in Inr \<lparr>scheme = scheme, netloc = netloc, path = url, params = [],
                        query = query, fragment = fragment\<rparr>))"

definition no_bracket_check :: "string \<Rightarrow> string option" where
  \<comment> \<open>a \<open>_check_bracketed_host\<close> that accepts every host\<close>
  "no_bracket_check host = None"

definition splitparams :: "string \<Rightarrow> string \<times> string" where
  \<comment> \<open>\<open>_splitparams\<close>: the first \<open>;\<close> at or after the last \<open>/\<close>. Without a \<open>/\<close>, \<open>find\<close>
      may return -1, and then the slices are \<open>url[:-1]\<close> and \<open>url[0:]\<close>.\<close>
  "splitparams url =
     (if CHR ''/'' \<in> set url then
        (let k = length url - 1 - length (takeWhile (\<lambda>c. c \<noteq> CHR ''/'') (rev url))
         in if CHR '';'' \<notin> set (drop k url) then (url, [])
            else (let i = k + length (takeWhile (\<lambda>c. c \<noteq> CHR '';'') (drop k url))
                  in (take i url, drop (i + 1) url)))
      else if CHR '';'' \<notin> set url then (butlast url, url)
      else (let i = length (takeWhile (\<lambda>c. c \<noteq> CHR '';'') url)
            in (take i url, drop (i + 1) url)))"

definition urlparse :: "(string \<Rightarrow> string option) \<Rightarrow> string \<Rightarrow> exn + parse_result" where
  "urlparse check_bracketed_host url =
     (case urlsplit check_bracketed_host url of
        Inl e \<Rightarrow> Inl e
      | Inr r \<Rightarrow>
          (let (url, ps) =
                 (if scheme r \<in> set uses_params \<and> CHR '';'' \<in> set (path r)
                  then splitparams (path r) else (path r, []))
           in Inr (r\<lparr>path := url, params := ps\<rparr>)))"

section \<open>The scraper's pure methods\<close>

definition priority_keywords :: "string list" where
  "priority_keywords =
     [''about'', ''company'', ''who-we-are'', ''our-story'', ''overview'', ''about-us'',
      ''services'', ''solutions'', ''products'', ''what-we-do'', ''offerings'', ''capabilities'',
      ''technology'', ''innovation'', ''ai'', ''artificial-intelligence'', ''digital'', ''ml'',
      ''machine-learning'', ''data'', ''analytics'', ''automation'',
      ''case-studies'', ''portfolio'', ''work'', ''projects'', ''success'', ''clients'',
      ''testimonials'', ''success-stories'', ''customers'', ''case-study'',
      ''team'', ''leadership'', ''people'', ''executives'', ''our-team'',
      ''careers'', ''jobs'', ''join-us'', ''work-with-us'',
      ''news'', ''blog'', ''insights'', ''resources'', ''press'']"

definition priority_link_texts :: "string list" where
  "priority_link_texts =
     [''about us'', ''about'', ''company'', ''who we are'', ''our company'', ''company info'',
      ''about the company'', ''learn more'', ''our story'',
      ''products'', ''our products'', ''services'', ''our services'', ''solutions'',
      ''what we do'', ''offerings'', ''capabilities'',
      ''technology'', ''innovation'', ''ai'', ''artificial intelligence'',
      ''machine learning'', ''data analytics'', ''automation'',
      ''case studies'', ''portfolio'', ''our work'', ''projects'', ''success stories'',
      ''client stories'', ''customer success'',
      ''team'', ''leadership'', ''our team'', ''people'', ''meet the team'',
      ''careers'', ''join us'', ''work with us'', ''jobs'']"

definition high_value_combos :: "(string \<times> string) list" where
  "high_value_combos =
     [(''about'', ''company''),
      (''our'', ''services''),
      (''what'', ''do''),
      (''case'', ''stud''),
      (''success'', ''stor''),
      (''our'', ''team''),
      (''artificial'', ''intelligence''),
      (''machine'', ''learning'')]"

definition skip_extensions :: "string list" where
  "skip_extensions =
     [''.pdf'', ''.jpg'', ''.jpeg'', ''.png'', ''.gif'', ''.svg'', ''.ico'',
      ''.zip'', ''.tar'', ''.gz'', ''.rar'',
      ''.doc'', ''.docx'', ''.xls'', ''.xlsx'', ''.ppt'', ''.pptx'',
      ''.mp4'', ''.mp3'', ''.avi'', ''.mov'', ''.wav'',
      ''.css'', ''.js'', ''.xml'', ''.json'']"

definition skip_patterns :: "string list" where
  "skip_patterns =
     [''login'', ''signin'', ''sign-in'', ''signup'', ''sign-up'', ''register'',
      ''cart'', ''checkout'', ''payment'', ''account'', ''profile'',
      ''search'', ''filter'', ''sort'',
      ''privacy'', ''terms'', ''cookie'', ''legal'', ''disclaimer'',
      ''wp-admin'', ''wp-content'', ''wp-includes'',
      ''feed'', ''rss'', ''atom'',
      ''#'', ''javascript:'', ''mailto:'', ''tel:'']"

definition normalize_url :: "(string \<Rightarrow> string option) \<Rightarrow> string \<Rightarrow> exn + string" where
  "normalize_url chk url =
     (case urlparse chk url of
        Inl e \<Rightarrow> Inl e
      | Inr parsed \<Rightarrow>
          (let path = rstrip_char (CHR ''/'') (path parsed)
           in Inr (scheme parsed @ ''://'' @ netloc parsed @ path)))"

definition is_valid_url_try :: "(string \<Rightarrow> string option) \<Rightarrow> string \<Rightarrow> string \<Rightarrow> exn + bool" where
  \<comment> \<open>the body of the \<open>try\<close> of \<open>is_valid_url\<close>\<close>
  "is_valid_url_try chk url base_domain =
     (case urlparse chk url of
        Inl e \<Rightarrow> Inl e
      | Inr parsed \<Rightarrow>
          if \<not> str_in base_domain (netloc parsed) then Inr False
          else if list_ex (\<lambda>ext. endswith (lower (path parsed)) ext) skip_extensions
          then Inr False
          else (let url_lower = lower url
                in if list_ex (\<lambda>pattern. str_in pattern url_lower) skip_patterns
                   then Inr False
                   else Inr True))"

definition is_valid_url :: "(string \<Rightarrow> string option) \<Rightarrow> string \<Rightarrow> string \<Rightarrow> bool" where
  \<comment> \<open>the bare \<open>except\<close> turns every exception into \<open>False\<close>\<close>
  "is_valid_url chk url base_domain =
     (case is_valid_url_try chk url base_domain of Inl e \<Rightarrow> False | Inr b \<Rightarrow> b)"

definition score_url_priority :: "string \<Rightarrow> string \<Rightarrow> string \<Rightarrow> int" where
  "score_url_priority url link_text anchor_context =
     (let url_lower = lower url;
          text_lower = strip (lower link_text);
          context_lower = strip (lower anchor_context);
          score = 0;
          score = fold (\<lambda>keyword score. if str_in keyword url_lower then score + 10 else score)
                    priority_keywords score;
          score = (if list_ex (\<lambda>pattern. str_in pattern text_lower) priority_link_texts
                   then score + 20 else score);
          score = (if list_ex (\<lambda>keyword. str_in keyword context_lower) priority_keywords
                   then score + 5 else score);
          path_depth = int (count_list url_lower (CHR ''/''));
          score = (if path_depth > 3 then score - (path_depth - 3) * 2 else score);
          combined = url_lower @ '' '' @ text_lower @ '' '' @ context_lower;
          score = fold (\<lambda>(word1, word2) score.
                          if str_in word1 combined \<and> str_in word2 combined
                          then score + 25 else score)
                    high_value_combos score;
          score = (if score = 0 \<and> length url_lower > 0 then 1 else score)
      in score)"

section \<open>Fetching a page\<close>

text \<open>
  The network, the HTML parser, the language classifier and the clock are outside the
  program. A \<open>web\<close> gives, for the \<open>k\<close>-th call of \<open>scrape_page\<close> and its URL, either the
  message of the exception raised inside the \<open>try\<close> (a transport error, an HTTP error status
  turned into an exception by \<open>raise_for_status\<close>, a parser failure), or the parsed document,
  represented by the values the scraper reads from it. It also gives the outcome of the
  \<open>n\<close>-th comparison of the elapsed time with the crawl timeout.
\<close>

record link_data =
  ld_url :: string
  ld_text :: string
  ld_context :: string

type_synonym signals = "(string \<times> string list) list"

record document =
  doc_text :: string  \<comment> \<open>\<open>extract_text_from_html(soup)\<close>\<close>
  doc_lang :: "string option"
    \<comment> \<open>\<open>detect(text[:200].strip())\<close>; \<open>None\<close> when it raises \<open>LangDetectException\<close>\<close>
  doc_links :: "link_data list"
    \<comment> \<open>the anchors with an \<open>href\<close>, in document order, resolved with \<open>urljoin\<close>\<close>
  doc_signals :: signals  \<comment> \<open>the items of \<open>detect_enterprise_signals(text)\<close>\<close>
  doc_company :: string  \<comment> \<open>\<open>extract_company_name(soup, url)\<close>\<close>

record web =
  response :: "nat \<Rightarrow> string \<Rightarrow> string + document"
  expired :: "nat \<Rightarrow> bool"

record page =
  page_url :: string
  page_text :: string
  page_links :: "link_data list"
  page_soup :: "document option"
  page_success :: bool
  page_error :: "string option"
  page_signals :: signals  \<comment> \<open>empty when the key \<open>enterprise_signals\<close> is absent\<close>

definition is_english :: "string \<Rightarrow> string option \<Rightarrow> bool" where
  \<comment> \<open>the second argument is the classifier's answer on the sample\<close>
  "is_english text lang =
     (if text = [] \<or> length (strip text) < 50 then True
      else (case lang of None \<Rightarrow> True | Some l \<Rightarrow> l = ''en''))"

definition scrape_page :: "web \<Rightarrow> nat \<Rightarrow> string \<Rightarrow> page" where
  "scrape_page w k url =
     (case response w k url of
        Inl e \<Rightarrow>
          \<lparr>page_url = url, page_text = [], page_links = [], page_soup = None,
           page_success = False, page_error = Some e, page_signals = []\<rparr>
      | Inr doc \<Rightarrow>
          if \<not> is_english (doc_text doc) (doc_lang doc)
          then \<lparr>page_url = url, page_text = [], page_links = [], page_soup = None,
                page_success = False, page_error = Some ''Non-English content'',
                page_signals = []\<rparr>
          else \<lparr>page_url = url, page_text = doc_text doc, page_links = doc_links doc,
                page_soup = Some doc, page_success = True, page_error = None,
                page_signals = doc_signals doc\<rparr>)"

section \<open>The crawl\<close>

record page_record =
  pr_url :: string
  pr_title :: string
  pr_text_length :: nat

record crawl_result =
  company_name :: string
  base_url :: string
  pages_scraped :: "page_record list"
  total_text :: string
  page_count :: int
  enterprise_signals :: "string \<rightharpoonup> string list"
  error :: "string option"

text \<open>
  The state of one call of \<open>crawl_website\<close>: the scraper's \<open>visited_urls\<close>, the \<open>results\<close>
  dictionary and \<open>all_signals\<close>, and two counters of the model: the URLs given to
  \<open>scrape_page\<close> so far, and the number of timeout checks made so far.
\<close>

record crawl_state =
  visited_urls :: "string set"
  results :: crawl_result
  all_signals :: "string \<rightharpoonup> string list"
  requests :: "string list"
  clock_checks :: nat

definition str_of_exn :: "exn \<Rightarrow> string" where
  "str_of_exn e = (case e of ValueError m \<Rightarrow> m | AttributeError m \<Rightarrow> m)"

definition collect_signals :: "signals \<Rightarrow> (string \<rightharpoonup> string list) \<Rightarrow> (string \<rightharpoonup> string list)" where
  "collect_signals sigs all =
     fold (\<lambda>(signal_type, matches) all.
             all(signal_type \<mapsto> (case all signal_type of None \<Rightarrow> [] | Some ms \<Rightarrow> ms) @ matches))
       sigs all"

fun score_links ::
  "(string \<Rightarrow> string option) \<Rightarrow> string set \<Rightarrow> string \<Rightarrow> link_data list
     \<Rightarrow> (int \<times> string \<times> string) list \<Rightarrow> exn + (int \<times> string \<times> string) list" where
  "score_links chk visited base_domain [] scored_links = Inr scored_links"
| "score_links chk visited base_domain (link_data # rest) scored_links =
     (let link_url = ld_url link_data in
      case normalize_url chk link_url of
        Inl e \<Rightarrow> Inl e
      | Inr normalized \<Rightarrow>
          if normalized \<in> visited then score_links chk visited base_domain rest scored_links
          else if \<not> is_valid_url chk link_url base_domain
          then score_links chk visited base_domain rest scored_links
          else (let score = score_url_priority link_url (ld_text link_data)
                              (ld_context link_data)
                in if score > 0
                   then score_links chk visited base_domain rest
                          (scored_links @ [(score, link_url, ld_text link_data)])
                   else score_links chk visited base_domain rest scored_links))"

definition sort_reverse_by_score :: "(int \<times> string \<times> string) list \<Rightarrow> (int \<times> string \<times> string) list" where
  \<comment> \<open>\<open>sort(reverse=True, key=lambda x: x[0])\<close>: Python's sort is stable, also with
      \<open>reverse=True\<close>, so it is the stable sort by descending key\<close>
  "sort_reverse_by_score xs = sort_key (\<lambda>x. - fst x) xs"

fun crawl_pages ::
  "(string \<Rightarrow> string option) \<Rightarrow> web \<Rightarrow> (int \<times> string \<times> string) list \<Rightarrow> crawl_state
     \<Rightarrow> exn option \<times> crawl_state" where
  "crawl_pages chk w [] st = (None, st)"
| "crawl_pages chk w ((score, url, link_text) # rest) st =
     (let timed_out = expired w (clock_checks st);
          st = st\<lparr>clock_checks := Suc (clock_checks st)\<rparr>
      in if timed_out then (None, st)
         else
           case normalize_url chk url of
             Inl e \<Rightarrow> (Some e, st)
           | Inr normalized \<Rightarrow>
               if normalized \<in> visited_urls st then crawl_pages chk w rest st
               else
                 (let page = scrape_page w (length (requests st)) url;
                      st = st\<lparr>requests := requests st @ [url]\<rparr>
                  in if page_success page then
                       (let st = st\<lparr>visited_urls := insert normalized (visited_urls st)\<rparr>;
                            st = (if page_signals page \<noteq> []
                                  then st\<lparr>all_signals :=
                                            collect_signals (page_signals page) (all_signals st)\<rparr>
                                  else st);
                            title = (if link_text \<noteq> [] then take 50 link_text else ''Page'');
                            r = results st;
                            r = r\<lparr>pages_scraped := pages_scraped r @
                                    [\<lparr>pr_url = url, pr_title = title,
                                      pr_text_length = length (page_text page)\<rparr>]\<rparr>;
                            r = r\<lparr>total_text := total_text r @
                                    [CHR 0x0A, CHR 0x0A] @ ''=== '' @ title @ '' ==='' @
                                    [CHR 0x0A, CHR 0x0A] @ page_text page\<rparr>;
                            r = r\<lparr>page_count := page_count r + 1\<rparr>
                        in crawl_pages chk w rest (st\<lparr>results := r\<rparr>))
                     else crawl_pages chk w rest st))"

definition crawl_try ::
  "(string \<Rightarrow> string option) \<Rightarrow> web \<Rightarrow> int \<Rightarrow> string \<Rightarrow> string \<Rightarrow> page \<Rightarrow> crawl_state
     \<Rightarrow> exn option \<times> crawl_state" where
  \<comment> \<open>the \<open>try\<close> block of \<open>crawl_website\<close> from the homepage's success on\<close>
  "crawl_try chk w max_pages base_domain start_url homepage st =
     (case page_soup homepage of
        None \<Rightarrow> (Some (AttributeError ''NoneType object has no attribute find''), st)
      | Some soup \<Rightarrow>
          (let st = st\<lparr>results := (results st)\<lparr>company_name := doc_company soup\<rparr>\<rparr>;
               st = (if page_signals homepage \<noteq> []
                     then st\<lparr>all_signals :=
                               collect_signals (page_signals homepage) (all_signals st)\<rparr>
                     else st)
           in case normalize_url chk start_url of
                Inl e \<Rightarrow> (Some e, st)
              | Inr normalized \<Rightarrow>
                  (let st = st\<lparr>visited_urls := insert normalized (visited_urls st)\<rparr>;
                       r = results st;
                       r = r\<lparr>pages_scraped := pages_scraped r @
                               [\<lparr>pr_url = start_url, pr_title = ''Homepage'',
                                 pr_text_length = length (page_text homepage)\<rparr>]\<rparr>;
                       r = r\<lparr>total_text := total_text r @ page_text homepage @
                               [CHR 0x0A, CHR 0x0A]\<rparr>;
                       r = r\<lparr>page_count := 1\<rparr>;
                       st = st\<lparr>results := r\<rparr>
                   in case score_links chk (visited_urls st) base_domain
                             (page_links homepage) [] of
                        Inl e \<Rightarrow> (Some e, st)
                      | Inr scored_links \<Rightarrow>
                          (let scored_links = sort_reverse_by_score scored_links;
                               priority_links = slice_to (max_pages - 1) scored_links
                           in crawl_pages chk w priority_links st))))"

definition crawl_finish :: "exn option \<times> crawl_state \<Rightarrow> crawl_state" where
  \<comment> \<open>the \<open>except\<close> clause, and the statement after it\<close>
  "crawl_finish out =
     (let (raised, st) = out;
          st = (case raised of
                  None \<Rightarrow> st
                | Some e \<Rightarrow> st\<lparr>results := (results st)\<lparr>error := Some (str_of_exn e)\<rparr>\<rparr>)
      in st\<lparr>results := (results st)\<lparr>enterprise_signals := all_signals st\<rparr>\<rparr>)"

definition crawl_website ::
  "(string \<Rightarrow> string option) \<Rightarrow> web \<Rightarrow> int \<Rightarrow> string set \<Rightarrow> string \<Rightarrow> exn + crawl_state" where
  \<comment> \<open>\<open>max_pages\<close> and \<open>visited\<close> are the scraper's fields when the method is called. The
      result is \<open>Inl\<close> when the exception leaves the method: \<open>urlparse(start_url)\<close> is
      called before the \<open>try\<close>.\<close>
  "crawl_website chk w max_pages visited start_url =
     (let start_url = (if \<not> startswith start_url ''http'' then ''https://'' @ start_url
                       else start_url)
      in case urlparse chk start_url of
           Inl e \<Rightarrow> Inl e
         | Inr parsed \<Rightarrow>
             (let base_domain = netloc parsed;
                  st = \<lparr>visited_urls = visited,
                        results = \<lparr>company_name = [], base_url = start_url,
                                   pages_scraped = [], total_text = [], page_count = 0,
                                   enterprise_signals = Map.empty, error = None\<rparr>,
                        all_signals = Map.empty, requests = [], clock_checks = 0\<rparr>;
                  homepage = scrape_page w (length (requests st)) start_url;
                  st = st\<lparr>requests := requests st @ [start_url]\<rparr>
              in if \<not> page_success homepage
                 then Inr (st\<lparr>results := (results st)\<lparr>error :=
                             Some (''Failed to scrape: '' @
                                   (case page_error homepage of None \<Rightarrow> ''None''
                                    | Some e \<Rightarrow> e))\<rparr>\<rparr>)
                 else Inr (crawl_finish
                             (crawl_try chk w max_pages base_domain start_url homepage st))))"

definition scrape_company_website ::
  "(string \<Rightarrow> string option) \<Rightarrow> web \<Rightarrow> string \<Rightarrow> int \<Rightarrow> exn + crawl_result" where
  \<comment> \<open>a fresh scraper: nothing visited\<close>
  "scrape_company_website chk w url max_pages =
     (case crawl_website chk w max_pages {} url of
        Inl e \<Rightarrow> Inl e
      | Inr st \<Rightarrow> Inr (results st))"

section \<open>Closed forms used in the proofs\<close>

definition combined_text :: "string \<Rightarrow> string \<Rightarrow> string \<Rightarrow> string" where
  \<comment> \<open>the value of \<open>combined\<close> in \<open>score_url_priority\<close>\<close>
  "combined_text url link_text anchor_context =
     lower url @ '' '' @ strip (lower link_text) @ '' '' @ strip (lower anchor_context)"

definition raw_score :: "string \<Rightarrow> string \<Rightarrow> string \<Rightarrow> int" where
  \<comment> \<open>the value of \<open>score\<close> before the last \<open>if\<close> of \<open>score_url_priority\<close>, with the two
      accumulating loops written as counts; \<open>score_url_priority_raw\<close> relates it to the code\<close>
  "raw_score url link_text anchor_context =
     (let u = lower url; t = strip (lower link_text); c = strip (lower anchor_context);
          d = int (count_list u (CHR ''/''));
          combined = u @ '' '' @ t @ '' '' @ c
      in 10 * int (length (filter (\<lambda>k. str_in k u) priority_keywords))
         + (if list_ex (\<lambda>p. str_in p t) priority_link_texts then 20 else 0)
         + (if list_ex (\<lambda>k. str_in k c) priority_keywords then 5 else 0)
         - (if d > 3 then (d - 3) * 2 else 0)
         + 25 * int (length (filter (\<lambda>(w1, w2). str_in w1 combined \<and> str_in w2 combined)
                               high_value_combos)))"

definition page_stored :: "crawl_state \<Rightarrow> string \<Rightarrow> string \<Rightarrow> string \<Rightarrow> page \<Rightarrow> crawl_state" where
  \<comment> \<open>the state after the body of \<open>if page['success']\<close> in the crawl loop\<close>
  "page_stored st normalized url link_text page =
     st\<lparr>visited_urls := insert normalized (visited_urls st),
        all_signals := (if page_signals page \<noteq> []
                        then collect_signals (page_signals page) (all_signals st)
                        else all_signals st),
        results := (results st)
          \<lparr>pages_scraped := pages_scraped (results st) @
             [\<lparr>pr_url = url,
               pr_title = (if link_text \<noteq> [] then take 50 link_text else ''Page''),
               pr_text_length = length (page_text page)\<rparr>],
           total_text := total_text (results st) @ [CHR 0x0A, CHR 0x0A] @ ''=== '' @
             (if link_text \<noteq> [] then take 50 link_text else ''Page'') @ '' ==='' @
             [CHR 0x0A, CHR 0x0A] @ page_text page,
           page_count := page_count (results st) + 1\<rparr>\<rparr>"

definition ticked :: "crawl_state \<Rightarrow> crawl_state" where
  \<comment> \<open>the state after one timeout check\<close>
  "ticked st = st\<lparr>clock_checks := Suc (clock_checks st)\<rparr>"

definition requested :: "string \<Rightarrow> crawl_state \<Rightarrow> crawl_state" where
  \<comment> \<open>the state after one call of \<open>scrape_page\<close>\<close>
  "requested url st = st\<lparr>requests := requests st @ [url]\<rparr>"

definition no_duplicates :: "(string \<Rightarrow> string option) \<Rightarrow> crawl_state \<Rightarrow> bool" where
  \<comment> \<open>the page records have pairwise different normal forms, all of them visited\<close>
  "no_duplicates chk st =
     (distinct (map (\<lambda>r. normalize_url chk (pr_url r)) (pages_scraped (results st)))
      \<and> (\<forall>r \<in> set (pages_scraped (results st)).
            \<exists>n. normalize_url chk (pr_url r) = Inr n \<and> n \<in> visited_urls st))"

definition unvisited :: "(string \<Rightarrow> string option) \<Rightarrow> string set \<Rightarrow> string \<Rightarrow> bool" where
  \<comment> \<open>the URL normalises, and its normal form has not been visited\<close>
  "unvisited chk visited url =
     (case normalize_url chk url of Inl e \<Rightarrow> False | Inr normalized \<Rightarrow> normalized \<notin> visited)"

definition candidates ::
  "(string \<Rightarrow> string option) \<Rightarrow> string set \<Rightarrow> string \<Rightarrow> link_data list
     \<Rightarrow> (int \<times> string \<times> string) list" where
  \<comment> \<open>the value of \<open>scored_links\<close> after the scoring loop, as a comprehension\<close>
  "candidates chk visited base_domain links =
     map (\<lambda>l. (score_url_priority (ld_url l) (ld_text l) (ld_context l), ld_url l, ld_text l))
       (filter (\<lambda>l. unvisited chk visited (ld_url l)
                    \<and> is_valid_url chk (ld_url l) base_domain
                    \<and> score_url_priority (ld_url l) (ld_text l) (ld_context l) > 0)
          links)"

definition seed_url :: "string \<Rightarrow> string" where
  \<comment> \<open>the value of \<open>start_url\<close> after the first \<open>if\<close> of \<open>crawl_website\<close>\<close>
  "seed_url start_url =
     (if \<not> startswith start_url ''http'' then ''https://'' @ start_url else start_url)"

definition init_state :: "string set \<Rightarrow> string \<Rightarrow> crawl_state" where
  \<comment> \<open>the state when \<open>scrape_page(start_url)\<close> has been called\<close>
  "init_state visited start_url =
     \<lparr>visited_urls = visited,
      results = \<lparr>company_name = [], base_url = start_url, pages_scraped = [],
                 total_text = [], page_count = 0, enterprise_signals = Map.empty,
                 error = None\<rparr>,
      all_signals = Map.empty, requests = [start_url], clock_checks = 0\<rparr>"

definition home_stored :: "crawl_state \<Rightarrow> string \<Rightarrow> string \<Rightarrow> page \<Rightarrow> document \<Rightarrow> crawl_state" where
  \<comment> \<open>the state after the block \<open>Store homepage\<close>\<close>
  "home_stored st normalized start_url homepage soup =
     st\<lparr>all_signals := (if page_signals homepage \<noteq> []
                        then collect_signals (page_signals homepage) (all_signals st)
                        else all_signals st),
        visited_urls := insert normalized (visited_urls st),
        results := (results st)
          \<lparr>company_name := doc_company soup,
           pages_scraped := pages_scraped (results st) @
             [\<lparr>pr_url = start_url, pr_title = ''Homepage'',
               pr_text_length = length (page_text homepage)\<rparr>],
           total_text := total_text (results st) @ page_text homepage @ [CHR 0x0A, CHR 0x0A],
           page_count := 1\<rparr>\<rparr>"

definition url_clean :: "string \<Rightarrow> string" where
  \<comment> \<open>the URL after the \<open>lstrip\<close> and the removal of tab, CR and LF in \<open>urlsplit\<close>\<close>
  "url_clean url =
     filter (\<lambda>c. c \<notin> set UNSAFE_URL_BYTES_TO_REMOVE) (dropWhile WHATWG_C0_CONTROL_OR_SPACE url)"

definition net_split :: "string \<Rightarrow> string \<times> string" where
  \<comment> \<open>the host and the rest, after the \<open>if url[:2] == '//'\<close> of \<open>urlsplit\<close>\<close>
  "net_split url = (if take 2 url = ''//'' then splitnetloc url else ([], url))"

definition path_of :: "string \<Rightarrow> string" where
  \<comment> \<open>the text before the first \<open>#\<close> or \<open>?\<close>: the path \<open>urlsplit\<close> returns\<close>
  "path_of url = takeWhile (\<lambda>c. c \<noteq> CHR ''#'' \<and> c \<noteq> CHR ''?'') url"

definition brackets_ok :: "(string \<Rightarrow> string option) \<Rightarrow> string \<Rightarrow> bool" where
  \<comment> \<open>neither \<open>ValueError\<close> of \<open>urlsplit\<close> is raised for this host\<close>
  "brackets_ok chk nl =
     (\<not> ((CHR ''['' \<in> set nl \<and> CHR '']'' \<notin> set nl) \<or> (CHR '']'' \<in> set nl \<and> CHR ''['' \<notin> set nl))
      \<and> (CHR ''['' \<in> set nl \<and> CHR '']'' \<in> set nl \<longrightarrow> chk (bracketed_host nl) = None))"

definition bracket_error :: "(string \<Rightarrow> string option) \<Rightarrow> string \<Rightarrow> exn" where
  \<comment> \<open>the \<open>ValueError\<close> that \<open>urlsplit\<close> raises for this host\<close>
  "bracket_error chk nl =
     (if (CHR ''['' \<in> set nl \<and> CHR '']'' \<notin> set nl) \<or> (CHR '']'' \<in> set nl \<and> CHR ''['' \<notin> set nl)
      then ValueError ''Invalid IPv6 URL''
      else ValueError (the (chk (bracketed_host nl))))"

definition ppath :: "string \<Rightarrow> string \<Rightarrow> string" where
  \<comment> \<open>the path \<open>urlparse\<close> returns for a scheme and the path of \<open>urlsplit\<close>\<close>
  "ppath s p = (if s \<in> set uses_params \<and> CHR '';'' \<in> set p then fst (splitparams p) else p)"

section \<open>Example sites\<close>

text \<open>
  Three webs for the concrete runs below: one where every request fails with HTTP 404,
  one where every URL serves a short English page carrying the given anchors, and one like
  it where a single URL answers with HTTP 404.
\<close>

definition web_down :: web where
  "web_down = \<lparr>response = (\<lambda>k url. Inl ''404 Client Error: Not Found''),
               expired = (\<lambda>k. False)\<rparr>"

definition site :: "link_data list \<Rightarrow> web" where
  "site links =
     \<lparr>response = (\<lambda>k url. Inr \<lparr>doc_text = ''Welcome'', doc_lang = Some ''en'',
                                doc_links = links, doc_signals = [],
                                doc_company = ''Example''\<rparr>),
      expired = (\<lambda>k. False)\<rparr>"

definition site_with_dead_link :: "string \<Rightarrow> link_data list \<Rightarrow> web" where
  "site_with_dead_link dead links =
     \<lparr>response = (\<lambda>k url. if url = dead then Inl ''404 Client Error: Not Found''
                            else Inr \<lparr>doc_text = ''Welcome'', doc_lang = Some ''en'',
                                      doc_links = links, doc_signals = [],
                                      doc_company = ''Example''\<rparr>),
      expired = (\<lambda>k. False)\<rparr>"

definition anchor :: "string \<Rightarrow> string \<Rightarrow> link_data" where
  "anchor url text = \<lparr>ld_url = url, ld_text = text, ld_context = []\<rparr>"

definition ten_links :: "link_data list" where
  "ten_links =
     [anchor ''https://example.com/contact'' ''Contact'',
      anchor ''https://example.com/services'' ''Services'',
      anchor ''https://example.com/team'' ''Team'',
      anchor ''https://example.com/about-us'' ''About Us'',
      anchor ''https://example.com/blog'' ''Blog'',
      anchor ''https://example.com/careers'' ''Careers'',
      anchor ''https://example.com/products'' ''Products'',
      anchor ''https://example.com/news'' ''News'',
      anchor ''https://example.com/pricing'' ''Pricing'',
      anchor ''https://example.com/faq'' ''FAQ'']"

definition ten_links_repeated :: "link_data list" where
  "ten_links_repeated =
     [anchor ''https://example.com/about-us'' ''About Us'',
      anchor ''https://example.com/contact'' ''Contact'',
      anchor ''https://example.com/services'' ''Services'',
      anchor ''https://example.com/team'' ''Team'',
      anchor ''https://example.com/blog'' ''Blog'',
      anchor ''https://example.com/careers'' ''Careers'',
      anchor ''https://example.com/products'' ''Products'',
      anchor ''https://example.com/news'' ''News'',
      anchor ''https://example.com/pricing'' ''Pricing'',
      anchor ''https://example.com/about-us/'' ''About Us'']"

section \<open>String lemmas\<close>

lemma str_in_sublist: "str_in p s = sublist p s"
  by (induction s) (auto simp: sublist_Cons_right)

lemma endswith_suffix: "endswith s p = suffix p s"
proof
  assume "endswith s p"
  then have "s = take (length s - length p) s @ p"
    by (metis append_take_drop_id endswith_def)
  then show "suffix p s" by (metis suffixI)
next
  assume "suffix p s"
  then obtain q where "s = q @ p" by (auto simp: suffix_def)
  then show "endswith s p" by (simp add: endswith_def)
qed

section \<open>The link score\<close>

lemma fold_add_count:
  "fold (\<lambda>k (s::int). if P k then s + d else s) ks a = a + d * int (length (filter P ks))"
  by (induction ks arbitrary: a) (simp_all add: algebra_simps)

lemma fold_combo_count:
  "fold (\<lambda>(w1, w2) (s::int). if Q w1 w2 then s + d else s) ps a
     = a + d * int (length (filter (\<lambda>(w1, w2). Q w1 w2) ps))"
  by (induction ps arbitrary: a) (auto simp: algebra_simps)

lemma score_url_priority_raw:
  "score_url_priority url t c =
     (if raw_score url t c = 0 \<and> url \<noteq> [] then 1 else raw_score url t c)"
  unfolding score_url_priority_def raw_score_def Let_def fold_add_count fold_combo_count
  by (simp add: lower_def)

text \<open>
  C4 (floor rule). The claim: a same-domain, non-excluded, non-empty URL without any
  keyword, phrase, context or combination match scores exactly 1, whatever its depth.
  The code applies the depth penalty before the floor test, and the test is \<open>score == 0\<close>:
  the URL below is valid, matches nothing, has four slashes, and scores -2.
\<close>

theorem floor_rule_deep_url:
  "is_valid_url no_bracket_check ''https://example.com/x/y'' ''example.com''
   \<and> \<not> list_ex (\<lambda>k. str_in k (lower ''https://example.com/x/y'')) priority_keywords
   \<and> \<not> list_ex (\<lambda>(w1, w2). str_in w1 (combined_text ''https://example.com/x/y'' [] [])
                         \<and> str_in w2 (combined_text ''https://example.com/x/y'' [] []))
          high_value_combos
   \<and> score_url_priority ''https://example.com/x/y'' [] [] = - 2"
  by code_simp

text \<open>
  C5 (score monotonicity), as stated: one more occurrence of a keyword in the URL adds 10.
  The loop adds 10 once for a keyword that occurs, so a second occurrence adds nothing.
\<close>

theorem keyword_repeat_counterexample:
  "score_url_priority ''https://example.com/team'' [] [] = 10
   \<and> score_url_priority ''https://example.com/team-team'' [] [] = 10"
  by code_simp

text \<open>
  C5, amended: for the same link text and context, two URLs with the same number of
  slashes and the same combination hits, neither score being the floor value 1, differ in
  score by 10 times the difference in the number of listed keywords that occur in the
  lower-cased URL. A keyword the URL did not contain adds 10; a further occurrence of one it
  contains adds nothing.
\<close>

theorem keyword_term_counts_distinct_keywords:
  assumes depth: "count_list (lower url') (CHR ''/'') = count_list (lower url) (CHR ''/'')"
    and combos: "\<forall>(w1, w2) \<in> set high_value_combos.
                   (str_in w1 (combined_text url' t c) \<and> str_in w2 (combined_text url' t c))
                 = (str_in w1 (combined_text url t c) \<and> str_in w2 (combined_text url t c))"
    and nofloor: "score_url_priority url t c \<noteq> 1" "score_url_priority url' t c \<noteq> 1"
  shows "score_url_priority url' t c - score_url_priority url t c
         = 10 * (int (length (filter (\<lambda>k. str_in k (lower url')) priority_keywords))
                 - int (length (filter (\<lambda>k. str_in k (lower url)) priority_keywords)))"
proof -
  have raw: "score_url_priority url t c = raw_score url t c"
            "score_url_priority url' t c = raw_score url' t c"
    using nofloor by (auto simp: score_url_priority_raw split: if_splits)
  have "filter (\<lambda>(w1, w2). str_in w1 (combined_text url' t c) \<and> str_in w2 (combined_text url' t c))
          high_value_combos
      = filter (\<lambda>(w1, w2). str_in w1 (combined_text url t c) \<and> str_in w2 (combined_text url t c))
          high_value_combos"
    using combos by (intro filter_cong) auto
  then show ?thesis
    unfolding raw using depth
    by (simp add: raw_score_def Let_def combined_text_def)
qed

theorem keyword_term_counts_distinct_keywords_witness:
  "score_url_priority ''https://example.com/team-jobs'' [] [] \<noteq> 1
   \<and> score_url_priority ''https://example.com/team'' [] [] \<noteq> 1
   \<and> score_url_priority ''https://example.com/team-jobs'' [] []
       - score_url_priority ''https://example.com/team'' [] [] = 10"
proof -
  have d: "count_list (lower ''https://example.com/team-jobs'') (CHR ''/'')
         = count_list (lower ''https://example.com/team'') (CHR ''/'')"
    by code_simp
  have cb: "\<forall>(w1, w2) \<in> set high_value_combos.
       (str_in w1 (combined_text ''https://example.com/team-jobs'' [] [])
        \<and> str_in w2 (combined_text ''https://example.com/team-jobs'' [] []))
     = (str_in w1 (combined_text ''https://example.com/team'' [] [])
        \<and> str_in w2 (combined_text ''https://example.com/team'' [] []))"
    by code_simp
  have n1: "score_url_priority ''https://example.com/team'' [] [] \<noteq> 1"
    by code_simp
  have n2: "score_url_priority ''https://example.com/team-jobs'' [] [] \<noteq> 1"
    by code_simp
  have k1: "length (filter (\<lambda>k. str_in k (lower ''https://example.com/team-jobs''))
                      priority_keywords) = 2"
    by code_simp
  have k2: "length (filter (\<lambda>k. str_in k (lower ''https://example.com/team''))
                      priority_keywords) = 1"
    by code_simp
  show ?thesis
    using keyword_term_counts_distinct_keywords [OF d cb n1 n2] n1 n2
    unfolding k1 k2 by simp
qed

section \<open>The URL filter\<close>

lemma lower_char_hash: "lower_char (CHR ''#'') = CHR ''#''"
  by (simp add: lower_char_def)

lemma hash_in_lower: "CHR ''#'' \<in> set url \<Longrightarrow> CHR ''#'' \<in> set (lower url)"
  unfolding lower_def using lower_char_hash by (metis image_eqI set_map)

lemma char_sublist: "c \<in> set s \<Longrightarrow> sublist [c] s"
  by (metis append_Cons append_Nil split_list sublist_appendI)

text \<open>
  C8 (what \<open>is_valid_url\<close> rejects), as stated: a same-domain URL with a normal path and a
  fragment, matching no other rule, is valid. The pattern list contains \<open>#\<close>, tested on the
  whole URL: the page below is valid, and with a fragment it is not.
\<close>

theorem fragment_url_counterexample:
  "\<not> list_ex (\<lambda>ext. endswith (lower ''/page'') ext) skip_extensions
   \<and> \<not> list_ex (\<lambda>pattern. str_in pattern (lower ''https://example.com/page''))
          skip_patterns
   \<and> is_valid_url no_bracket_check ''https://example.com/page'' ''example.com''
   \<and> \<not> is_valid_url no_bracket_check ''https://example.com/page#section'' ''example.com''"
  by code_simp

text \<open>
  C8, amended: \<open>is_valid_url\<close> accepts a URL exactly when \<open>urlparse\<close> returns, the host
  contains the base domain, the lower-cased path ends in none of the listed extensions, and
  the lower-cased URL contains none of the listed substrings. One of them is \<open>#\<close>, so every
  URL with a fragment, also an empty one, is rejected.
\<close>

theorem is_valid_url_iff:
  "(is_valid_url chk url base_domain \<longleftrightarrow>
      (\<exists>parsed. urlparse chk url = Inr parsed
         \<and> sublist base_domain (netloc parsed)
         \<and> (\<forall>ext \<in> set skip_extensions. \<not> suffix ext (lower (path parsed)))
         \<and> (\<forall>pattern \<in> set skip_patterns. \<not> sublist pattern (lower url))))
   \<and> (CHR ''#'' \<in> set url \<longrightarrow> \<not> is_valid_url chk url base_domain)"
proof -
  have iff: "is_valid_url chk url base_domain \<longleftrightarrow>
      (\<exists>parsed. urlparse chk url = Inr parsed
         \<and> sublist base_domain (netloc parsed)
         \<and> (\<forall>ext \<in> set skip_extensions. \<not> suffix ext (lower (path parsed)))
         \<and> (\<forall>pattern \<in> set skip_patterns. \<not> sublist pattern (lower url)))"
    by (cases "urlparse chk url")
       (auto simp: is_valid_url_def is_valid_url_try_def Let_def list_ex_iff
                   str_in_sublist endswith_suffix)
  have "\<not> is_valid_url chk url base_domain" if h: "CHR ''#'' \<in> set url"
  proof -
    have "sublist ''#'' (lower url)"
      using h by (intro char_sublist hash_in_lower)
    moreover have "''#'' \<in> set skip_patterns"
      by (simp add: skip_patterns_def)
    ultimately show ?thesis using iff by blast
  qed
  with iff show ?thesis by blast
qed

theorem is_valid_url_iff_witness:
  "is_valid_url no_bracket_check ''https://example.com/about'' ''example.com''
   \<and> CHR ''#'' \<in> set ''https://example.com/page#section''
   \<and> \<not> is_valid_url no_bracket_check ''https://example.com/page#section'' ''example.com''"
proof -
  have p: "urlparse no_bracket_check ''https://example.com/about''
           = Inr \<lparr>scheme = ''https'', netloc = ''example.com'', path = ''/about'',
                  params = [], query = [], fragment = []\<rparr>"
    by code_simp
  have h1: "sublist ''example.com'' ''example.com''"
    by simp
  have h2: "\<forall>ext \<in> set skip_extensions. \<not> suffix ext (lower ''/about'')"
    unfolding endswith_suffix [symmetric] by code_simp
  have h3: "\<forall>pattern \<in> set skip_patterns. \<not> sublist pattern (lower ''https://example.com/about'')"
    unfolding str_in_sublist [symmetric] by code_simp
  have a: "is_valid_url no_bracket_check ''https://example.com/about'' ''example.com''"
    using is_valid_url_iff [of no_bracket_check "''https://example.com/about''" "''example.com''"]
      p h1 h2 h3 by simp
  have h4: "CHR ''#'' \<in> set ''https://example.com/page#section''"
    by simp
  have b: "\<not> is_valid_url no_bracket_check ''https://example.com/page#section'' ''example.com''"
    using is_valid_url_iff [of no_bracket_check "''https://example.com/page#section''" "''example.com''"]
      h4 by blast
  show ?thesis using a h4 b by blast
qed

text \<open>
  C10 (\<open>is_valid_url\<close> never raises): the one exception of the \<open>try\<close> block is the
  \<open>ValueError\<close> of \<open>urlparse\<close>; when it is raised the result is \<open>False\<close>.
\<close>

theorem is_valid_url_never_raises:
  assumes "urlparse chk url = Inl e"
  shows "is_valid_url_try chk url base_domain = Inl e
         \<and> is_valid_url chk url base_domain = False"
  using assms by (simp add: is_valid_url_def is_valid_url_try_def)

theorem is_valid_url_never_raises_witness:
  "urlparse no_bracket_check ''http://[example.com/about'' = Inl (ValueError ''Invalid IPv6 URL'')
   \<and> is_valid_url no_bracket_check ''http://[example.com/about'' ''example.com'' = False"
proof -
  have h: "urlparse no_bracket_check ''http://[example.com/about''
           = Inl (ValueError ''Invalid IPv6 URL'')"
    by code_simp
  show ?thesis
    using h is_valid_url_never_raises [OF h, of "''example.com''"] by simp
qed

section \<open>The crawl loop\<close>

lemma crawl_pages_Cons:
  "crawl_pages chk w ((score, url, link_text) # rest) st =
     (if expired w (clock_checks st) then (None, ticked st)
      else case normalize_url chk url of
             Inl e \<Rightarrow> (Some e, ticked st)
           | Inr normalized \<Rightarrow>
               if normalized \<in> visited_urls st then crawl_pages chk w rest (ticked st)
               else if page_success (scrape_page w (length (requests st)) url)
               then crawl_pages chk w rest
                      (page_stored (requested url (ticked st)) normalized url link_text
                         (scrape_page w (length (requests st)) url))
               else crawl_pages chk w rest (requested url (ticked st)))"
  by (simp add: Let_def ticked_def requested_def page_stored_def split: sum.splits)

lemma ticked_fields [simp]:
  "visited_urls (ticked st) = visited_urls st"
  "results (ticked st) = results st"
  "all_signals (ticked st) = all_signals st"
  "requests (ticked st) = requests st"
  "clock_checks (ticked st) = Suc (clock_checks st)"
  by (simp_all add: ticked_def)

lemma requested_fields [simp]:
  "visited_urls (requested url st) = visited_urls st"
  "results (requested url st) = results st"
  "all_signals (requested url st) = all_signals st"
  "requests (requested url st) = requests st @ [url]"
  "clock_checks (requested url st) = clock_checks st"
  by (simp_all add: requested_def)

lemma page_stored_fields [simp]:
  "visited_urls (page_stored st n url t p) = insert n (visited_urls st)"
  "requests (page_stored st n url t p) = requests st"
  "clock_checks (page_stored st n url t p) = clock_checks st"
  "page_count (results (page_stored st n url t p)) = page_count (results st) + 1"
  "pages_scraped (results (page_stored st n url t p)) = pages_scraped (results st) @
     [\<lparr>pr_url = url, pr_title = (if t \<noteq> [] then take 50 t else ''Page''),
       pr_text_length = length (page_text p)\<rparr>]"
  "error (results (page_stored st n url t p)) = error (results st)"
  "base_url (results (page_stored st n url t p)) = base_url (results st)"
  by (simp_all add: page_stored_def)

lemma crawl_pages_count:
  "crawl_pages chk w cands st = (exc, st') \<Longrightarrow>
     page_count (results st') \<le> page_count (results st) + int (length cands)
     \<and> page_count (results st') - int (length (pages_scraped (results st')))
       = page_count (results st) - int (length (pages_scraped (results st)))"
proof (induction cands arbitrary: st)
  case Nil
  then show ?case by simp
next
  case (Cons c cands)
  obtain score url link_text where c: "c = (score, url, link_text)"
    by (cases c) auto
  show ?case
    using Cons.prems unfolding c crawl_pages_Cons
    by (auto split: if_splits sum.splits dest!: Cons.IH)
qed

lemma crawl_pages_base_url:
  "crawl_pages chk w cands st = (exc, st') \<Longrightarrow>
     base_url (results st') = base_url (results st) \<and> error (results st') = error (results st)"
proof (induction cands arbitrary: st)
  case Nil
  then show ?case by simp
next
  case (Cons c cands)
  obtain score url link_text where c: "c = (score, url, link_text)"
    by (cases c) auto
  show ?case
    using Cons.prems unfolding c crawl_pages_Cons
    by (auto split: if_splits sum.splits dest!: Cons.IH)
qed

lemma no_duplicates_ticked [simp]: "no_duplicates chk (ticked st) = no_duplicates chk st"
  by (simp add: no_duplicates_def)

lemma no_duplicates_requested [simp]:
  "no_duplicates chk (requested url st) = no_duplicates chk st"
  by (simp add: no_duplicates_def)

lemma no_duplicates_page_stored:
  assumes "no_duplicates chk st" "normalize_url chk url = Inr n" "n \<notin> visited_urls st"
  shows "no_duplicates chk (page_stored st n url t p)"
  using assms by (auto simp: no_duplicates_def)

lemma crawl_pages_no_duplicates:
  "crawl_pages chk w cands st = (exc, st') \<Longrightarrow> no_duplicates chk st \<Longrightarrow> no_duplicates chk st'"
proof (induction cands arbitrary: st)
  case Nil
  then show ?case by simp
next
  case (Cons c cands)
  obtain score url link_text where c: "c = (score, url, link_text)"
    by (cases c) auto
  show ?case
    using Cons.prems unfolding c crawl_pages_Cons
    by (auto split: if_splits sum.splits
             intro!: Cons.IH no_duplicates_page_stored)
qed

lemma crawl_pages_requests:
  "crawl_pages chk w cands st = (exc, st') \<Longrightarrow>
     \<exists>r. requests st' = requests st @ r \<and> subseq r (map (\<lambda>c. fst (snd c)) cands)"
proof (induction cands arbitrary: st)
  case Nil
  then show ?case by simp
next
  case (Cons c cands)
  obtain score url link_text where c: "c = (score, url, link_text)"
    by (cases c) auto
  show ?case
    using Cons.prems unfolding c crawl_pages_Cons
    by (fastforce split: if_splits sum.splits dest!: Cons.IH)
qed

lemma crawl_pages_all_requested:
  assumes "\<forall>k. \<not> expired w k"
    and "\<forall>c \<in> set cands. \<exists>n. normalize_url chk (fst (snd c)) = Inr n \<and> n \<notin> visited_urls st"
    and "distinct (map (\<lambda>c. normalize_url chk (fst (snd c))) cands)"
    and "crawl_pages chk w cands st = (exc, st')"
  shows "requests st' = requests st @ map (\<lambda>c. fst (snd c)) cands \<and> exc = None"
  using assms(2-)
proof (induction cands arbitrary: st)
  case Nil
  then show ?case by simp
next
  case (Cons c cands)
  obtain score url link_text where c: "c = (score, url, link_text)"
    by (cases c) auto
  obtain n where n: "normalize_url chk url = Inr n" "n \<notin> visited_urls st"
    using Cons.prems(1) c by auto
  have rest: "\<forall>c \<in> set cands. \<exists>m. normalize_url chk (fst (snd c)) = Inr m
                \<and> m \<notin> insert n (visited_urls st)"
    using Cons.prems(1,2) n c by force
  have d: "distinct (map (\<lambda>c. normalize_url chk (fst (snd c))) cands)"
    using Cons.prems(2) by simp
  show ?case
  proof (cases "page_success (scrape_page w (length (requests st)) url)")
    case True
    with Cons.prems(3) assms(1) n
    have "crawl_pages chk w cands
            (page_stored (requested url (ticked st)) n url link_text
               (scrape_page w (length (requests st)) url)) = (exc, st')"
      unfolding c crawl_pages_Cons by simp
    from Cons.IH [OF _ d this] rest show ?thesis
      by (simp add: c)
  next
    case False
    with Cons.prems(3) assms(1) n
    have step: "crawl_pages chk w cands (requested url (ticked st)) = (exc, st')"
      unfolding c crawl_pages_Cons by simp
    have pre: "\<forall>c \<in> set cands. \<exists>m. normalize_url chk (fst (snd c)) = Inr m
                \<and> m \<notin> visited_urls (requested url (ticked st))"
      using rest by auto
    from Cons.IH [OF pre d step] show ?thesis
      by (simp add: c)
  qed
qed

lemma unvisited_iff:
  "unvisited chk visited url \<longleftrightarrow> (\<exists>n. normalize_url chk url = Inr n \<and> n \<notin> visited)"
  by (cases "normalize_url chk url") (simp_all add: unvisited_def)

lemma score_links_candidates:
  "score_links chk visited base links acc = Inr scored \<Longrightarrow>
     scored = acc @ candidates chk visited base links"
proof (induction links arbitrary: acc)
  case Nil
  then show ?case by (simp add: candidates_def)
next
  case (Cons l links)
  have tl: "candidates chk visited base (l # links)
      = (if unvisited chk visited (ld_url l)
            \<and> is_valid_url chk (ld_url l) base
            \<and> score_url_priority (ld_url l) (ld_text l) (ld_context l) > 0
         then [(score_url_priority (ld_url l) (ld_text l) (ld_context l), ld_url l, ld_text l)]
         else []) @ candidates chk visited base links"
    by (simp add: candidates_def)
  show ?case
  proof (cases "normalize_url chk (ld_url l)")
    case (Inl e)
    with Cons.prems show ?thesis by simp
  next
    case (Inr n)
    with Cons.prems show ?thesis
      unfolding tl by (auto simp: Let_def unvisited_def split: if_splits dest!: Cons.IH)
  qed
qed

lemma crawl_try_cases:
  "crawl_try chk w max_pages base start homepage st =
     (case page_soup homepage of
        None \<Rightarrow> (Some (AttributeError ''NoneType object has no attribute find''), st)
      | Some soup \<Rightarrow>
          (case normalize_url chk start of
             Inl e \<Rightarrow> (Some e, st\<lparr>results := (results st)\<lparr>company_name := doc_company soup\<rparr>,
                                 all_signals := (if page_signals homepage \<noteq> []
                                   then collect_signals (page_signals homepage) (all_signals st)
                                   else all_signals st)\<rparr>)
           | Inr n \<Rightarrow>
               (case score_links chk (insert n (visited_urls st)) base (page_links homepage) [] of
                  Inl e \<Rightarrow> (Some e, home_stored st n start homepage soup)
                | Inr scored \<Rightarrow>
                    crawl_pages chk w (slice_to (max_pages - 1) (sort_reverse_by_score scored))
                      (home_stored st n start homepage soup))))"
  by (simp add: crawl_try_def home_stored_def Let_def split: option.splits sum.splits)

lemma crawl_website_cases:
  "crawl_website chk w max_pages visited seed =
     (case urlparse chk (seed_url seed) of
        Inl e \<Rightarrow> Inl e
      | Inr parsed \<Rightarrow>
          if \<not> page_success (scrape_page w 0 (seed_url seed))
          then Inr ((init_state visited (seed_url seed))
                 \<lparr>results := (results (init_state visited (seed_url seed)))
                    \<lparr>error := Some (''Failed to scrape: '' @
                        (case page_error (scrape_page w 0 (seed_url seed)) of
                           None \<Rightarrow> ''None'' | Some e \<Rightarrow> e))\<rparr>\<rparr>)
          else Inr (crawl_finish
                      (crawl_try chk w max_pages (netloc parsed) (seed_url seed)
                         (scrape_page w 0 (seed_url seed))
                         (init_state visited (seed_url seed)))))"
  by (simp add: crawl_website_def seed_url_def init_state_def Let_def split: sum.splits)

lemma init_state_fields [simp]:
  "visited_urls (init_state v s) = v"
  "requests (init_state v s) = [s]"
  "clock_checks (init_state v s) = 0"
  "page_count (results (init_state v s)) = 0"
  "pages_scraped (results (init_state v s)) = []"
  "total_text (results (init_state v s)) = []"
  "error (results (init_state v s)) = None"
  "base_url (results (init_state v s)) = s"
  by (simp_all add: init_state_def)

lemma home_stored_fields [simp]:
  "visited_urls (home_stored st n s h d) = insert n (visited_urls st)"
  "requests (home_stored st n s h d) = requests st"
  "clock_checks (home_stored st n s h d) = clock_checks st"
  "page_count (results (home_stored st n s h d)) = 1"
  "pages_scraped (results (home_stored st n s h d)) = pages_scraped (results st) @
     [\<lparr>pr_url = s, pr_title = ''Homepage'', pr_text_length = length (page_text h)\<rparr>]"
  "error (results (home_stored st n s h d)) = error (results st)"
  "base_url (results (home_stored st n s h d)) = base_url (results st)"
  by (simp_all add: home_stored_def)

lemma crawl_finish_fields [simp]:
  "visited_urls (crawl_finish (exc, st)) = visited_urls st"
  "requests (crawl_finish (exc, st)) = requests st"
  "page_count (results (crawl_finish (exc, st))) = page_count (results st)"
  "pages_scraped (results (crawl_finish (exc, st))) = pages_scraped (results st)"
  "base_url (results (crawl_finish (exc, st))) = base_url (results st)"
  "error (results (crawl_finish (exc, st)))
     = (case exc of None \<Rightarrow> error (results st) | Some e \<Rightarrow> Some (str_of_exn e))"
  by (simp_all add: crawl_finish_def split: option.splits)

lemma no_duplicates_crawl_finish [simp]:
  "no_duplicates chk (crawl_finish (exc, st)) = no_duplicates chk st"
  by (simp add: no_duplicates_def)

lemma slice_to_length: "1 \<le> n \<Longrightarrow> int (length (slice_to (n - 1) xs)) \<le> n - 1"
  by (simp add: slice_to_def)

lemma slice_to_take: "1 \<le> n \<Longrightarrow> slice_to (n - 1) xs = take (nat (n - 1)) xs"
  by (simp add: slice_to_def)

lemma scrape_page_success:
  assumes "page_success (scrape_page w k url)"
  obtains d where "response w k url = Inr d" "is_english (doc_text d) (doc_lang d)"
    "page_soup (scrape_page w k url) = Some d" "page_links (scrape_page w k url) = doc_links d"
  using assms by (auto simp: scrape_page_def split: sum.splits if_splits)

lemma scrape_page_failure:
  "\<not> page_success (scrape_page w k url) \<longleftrightarrow>
     (\<exists>e. response w k url = Inl e)
     \<or> (\<exists>d. response w k url = Inr d \<and> \<not> is_english (doc_text d) (doc_lang d))"
  by (auto simp: scrape_page_def split: sum.splits if_splits)

lemma crawl_try_count:
  assumes "crawl_try chk w m base start h st0 = (exc, st1)"
    and "page_count (results st0) = 0" "pages_scraped (results st0) = []"
  shows "(1 \<le> m \<longrightarrow> page_count (results st1) \<le> m)
         \<and> page_count (results st1) = int (length (pages_scraped (results st1)))"
proof (cases "page_soup h")
  case None
  with assms show ?thesis by (simp add: crawl_try_cases)
next
  case (Some d)
  show ?thesis
  proof (cases "normalize_url chk start")
    case (Inl e)
    with assms Some show ?thesis by (auto simp: crawl_try_cases)
  next
    case (Inr n)
    show ?thesis
    proof (cases "score_links chk (insert n (visited_urls st0)) base (page_links h) []")
      case (Inl e)
      with assms Some Inr show ?thesis by (auto simp: crawl_try_cases)
    next
      case scored: (Inr scored)
      from assms(1) Some Inr scored
      have "crawl_pages chk w (slice_to (m - 1) (sort_reverse_by_score scored))
              (home_stored st0 n start h d) = (exc, st1)"
        by (simp add: crawl_try_cases)
      from crawl_pages_count [OF this] assms(2,3) slice_to_length [of m "sort_reverse_by_score scored"]
      show ?thesis by auto
    qed
  qed
qed

lemma crawl_try_no_duplicates:
  assumes "crawl_try chk w m base start h st0 = (exc, st1)"
    and "pages_scraped (results st0) = []"
  shows "no_duplicates chk st1"
proof -
  have empty: "\<And>st. pages_scraped (results st) = [] \<Longrightarrow> no_duplicates chk st"
    by (simp add: no_duplicates_def)
  show ?thesis
  proof (cases "page_soup h")
    case None
    with assms empty show ?thesis by (simp add: crawl_try_cases)
  next
    case (Some d)
    show ?thesis
    proof (cases "normalize_url chk start")
      case (Inl e)
      with assms Some empty show ?thesis by (auto simp: crawl_try_cases)
    next
      case (Inr n)
      have home: "no_duplicates chk (home_stored st0 n start h d)"
        using assms(2) Inr by (simp add: no_duplicates_def)
      show ?thesis
      proof (cases "score_links chk (insert n (visited_urls st0)) base (page_links h) []")
        case (Inl e)
        with assms Some Inr home show ?thesis by (auto simp: crawl_try_cases)
      next
        case scored: (Inr scored)
        from assms(1) Some Inr scored
        have "crawl_pages chk w (slice_to (m - 1) (sort_reverse_by_score scored))
                (home_stored st0 n start h d) = (exc, st1)"
          by (simp add: crawl_try_cases)
        from crawl_pages_no_duplicates [OF this home] show ?thesis .
      qed
    qed
  qed
qed

lemma candidates_normalized:
  "c \<in> set (candidates chk visited base links) \<Longrightarrow>
     \<exists>n. normalize_url chk (fst (snd c)) = Inr n \<and> n \<notin> visited"
  by (auto simp: candidates_def unvisited_iff)

lemma sort_reverse_by_score_set [simp]: "set (sort_reverse_by_score xs) = set xs"
  by (simp add: sort_reverse_by_score_def)

lemma sort_reverse_by_score_sorted:
  "sorted_wrt (\<lambda>a b. fst a \<ge> fst b) (sort_reverse_by_score xs)"
proof -
  have "sorted (map (\<lambda>x. - fst x) (sort_reverse_by_score xs))"
    by (simp add: sort_reverse_by_score_def)
  then show ?thesis
    by (simp add: sorted_wrt_map)
qed

lemma sort_reverse_by_score_stable:
  "filter (\<lambda>c. fst c = k) (sort_reverse_by_score xs) = filter (\<lambda>c. fst c = k) xs"
proof -
  have "filter (\<lambda>c. - fst c = - k) (sort_key (\<lambda>x. - fst x) xs)
      = filter (\<lambda>c. - fst c = - k) xs"
    by (rule sort_key_stable)
  then show ?thesis by (simp add: sort_reverse_by_score_def)
qed

lemma crawl_try_requests:
  assumes "crawl_try chk w m base start h st0 = (None, st1)" and "1 \<le> m"
  shows "\<exists>n r. normalize_url chk start = Inr n
           \<and> requests st1 = requests st0 @ r
           \<and> subseq r (map (\<lambda>c. fst (snd c))
                (take (nat (m - 1)) (sort_reverse_by_score
                   (candidates chk (insert n (visited_urls st0)) base (page_links h)))))
           \<and> ((\<forall>k. \<not> expired w k)
                \<and> distinct (map (\<lambda>c. normalize_url chk (fst (snd c)))
                     (take (nat (m - 1)) (sort_reverse_by_score
                        (candidates chk (insert n (visited_urls st0)) base (page_links h)))))
              \<longrightarrow> r = map (\<lambda>c. fst (snd c))
                     (take (nat (m - 1)) (sort_reverse_by_score
                        (candidates chk (insert n (visited_urls st0)) base (page_links h)))))"
proof -
  from assms(1) obtain d where d: "page_soup h = Some d"
    by (cases "page_soup h") (auto simp: crawl_try_cases)
  from assms(1) d obtain n where n: "normalize_url chk start = Inr n"
    by (cases "normalize_url chk start") (auto simp: crawl_try_cases)
  from assms(1) d n obtain scored where
    scored: "score_links chk (insert n (visited_urls st0)) base (page_links h) [] = Inr scored"
    by (cases "score_links chk (insert n (visited_urls st0)) base (page_links h) []")
       (auto simp: crawl_try_cases)
  define top where "top = take (nat (m - 1)) (sort_reverse_by_score
                     (candidates chk (insert n (visited_urls st0)) base (page_links h)))"
  have sc: "scored = candidates chk (insert n (visited_urls st0)) base (page_links h)"
    using score_links_candidates [OF scored] by simp
  have run: "crawl_pages chk w top (home_stored st0 n start h d) = (None, st1)"
    using assms d n scored by (simp add: crawl_try_cases slice_to_take sc top_def)
  from crawl_pages_requests [OF run] obtain r where
    r: "requests st1 = requests st0 @ r" "subseq r (map (\<lambda>c. fst (snd c)) top)"
    by auto
  have "r = map (\<lambda>c. fst (snd c)) top"
    if a: "\<forall>k. \<not> expired w k" and b: "distinct (map (\<lambda>c. normalize_url chk (fst (snd c))) top)"
  proof -
    have "\<forall>c \<in> set top. \<exists>m. normalize_url chk (fst (snd c)) = Inr m
            \<and> m \<notin> visited_urls (home_stored st0 n start h d)"
    proof
      fix c assume "c \<in> set top"
      then have "c \<in> set (candidates chk (insert n (visited_urls st0)) base (page_links h))"
        unfolding top_def using in_set_takeD by fastforce
      from candidates_normalized [OF this] show "\<exists>m. normalize_url chk (fst (snd c)) = Inr m
            \<and> m \<notin> visited_urls (home_stored st0 n start h d)"
        by simp
    qed
    from crawl_pages_all_requested [OF a this b run] r(1) show ?thesis by simp
  qed
  with r n show ?thesis unfolding top_def by blast
qed

lemma crawl_website_Inr:
  assumes "crawl_website chk w m visited seed = Inr st"
  obtains (failed) parsed where "urlparse chk (seed_url seed) = Inr parsed"
      "\<not> page_success (scrape_page w 0 (seed_url seed))"
      "st = (init_state visited (seed_url seed))
             \<lparr>results := (results (init_state visited (seed_url seed)))
                \<lparr>error := Some (''Failed to scrape: '' @
                    (case page_error (scrape_page w 0 (seed_url seed)) of
                       None \<Rightarrow> ''None'' | Some e \<Rightarrow> e))\<rparr>\<rparr>"
  | (crawled) parsed exc st1 where "urlparse chk (seed_url seed) = Inr parsed"
      "page_success (scrape_page w 0 (seed_url seed))"
      "crawl_try chk w m (netloc parsed) (seed_url seed) (scrape_page w 0 (seed_url seed))
         (init_state visited (seed_url seed)) = (exc, st1)"
      "st = crawl_finish (exc, st1)"
proof (cases "urlparse chk (seed_url seed)")
  case (Inl e)
  with assms show ?thesis by (simp add: crawl_website_cases)
next
  case (Inr parsed)
  show ?thesis
  proof (cases "page_success (scrape_page w 0 (seed_url seed))")
    case False
    with assms Inr show ?thesis
      by (intro failed [of parsed]) (simp_all add: crawl_website_cases)
  next
    case True
    obtain exc st1 where t: "crawl_try chk w m (netloc parsed) (seed_url seed)
        (scrape_page w 0 (seed_url seed)) (init_state visited (seed_url seed)) = (exc, st1)"
      by (cases "crawl_try chk w m (netloc parsed) (seed_url seed)
        (scrape_page w 0 (seed_url seed)) (init_state visited (seed_url seed))") auto
    with assms Inr True show ?thesis
      by (intro crawled [of parsed exc st1]) (simp_all add: crawl_website_cases)
  qed
qed

lemma crawl_pages_no_exception:
  "\<forall>c \<in> set cands. \<exists>n. normalize_url chk (fst (snd c)) = Inr n \<Longrightarrow>
     fst (crawl_pages chk w cands st) = None"
proof (induction cands arbitrary: st)
  case Nil
  then show ?case by simp
next
  case (Cons c cands)
  obtain score url link_text where c: "c = (score, url, link_text)"
    by (cases c) auto
  from Cons.prems obtain n where n: "normalize_url chk url = Inr n"
    by (auto simp: c)
  have rest: "\<And>st. fst (crawl_pages chk w cands st) = None"
    using Cons.IH Cons.prems by simp
  show ?case
    unfolding c crawl_pages_Cons using n rest by simp
qed

lemma crawl_pages_next_requested:
  assumes "\<not> expired w (clock_checks st)"
    and "normalize_url chk url = Inr n" and "n \<notin> visited_urls st"
  shows "\<exists>r. requests (snd (crawl_pages chk w ((score, url, link_text) # rest) st))
              = requests st @ [url] @ r"
proof (cases "page_success (scrape_page w (length (requests st)) url)")
  case True
  obtain exc st' where run: "crawl_pages chk w rest
      (page_stored (requested url (ticked st)) n url link_text
         (scrape_page w (length (requests st)) url)) = (exc, st')"
    by (metis surj_pair)
  from crawl_pages_requests [OF run] obtain r where "requests st' = (requests st @ [url]) @ r"
    by auto
  moreover have "crawl_pages chk w ((score, url, link_text) # rest) st = (exc, st')"
    unfolding crawl_pages_Cons using assms True run by simp
  ultimately show ?thesis by simp
next
  case False
  obtain exc st' where run: "crawl_pages chk w rest (requested url (ticked st)) = (exc, st')"
    by (metis surj_pair)
  from crawl_pages_requests [OF run] obtain r where "requests st' = (requests st @ [url]) @ r"
    by auto
  moreover have "crawl_pages chk w ((score, url, link_text) # rest) st = (exc, st')"
    unfolding crawl_pages_Cons using assms False run by simp
  ultimately show ?thesis by simp
qed

section \<open>The crawl's invariants\<close>

text \<open>
  C1 (budget), as stated: for every configured \<open>max_pages\<close>, \<open>page_count\<close> is at most
  \<open>max_pages\<close>. The homepage is stored before \<open>max_pages\<close> is read: with \<open>max_pages = 0\<close> and
  a homepage without links, one page is counted.
\<close>

theorem page_budget_counterexample:
  "map_sum str_of_exn page_count
     (scrape_company_website no_bracket_check (site []) ''example.com'' 0) = Inr 1"
  by code_simp

text \<open>
  C1, amended: whenever \<open>crawl_website\<close> returns, \<open>page_count\<close> is the number of page
  records, and it is at most \<open>max_pages\<close> when \<open>max_pages\<close> is at least 1.
\<close>

theorem page_budget:
  assumes "crawl_website chk w max_pages visited seed = Inr st"
  shows "(1 \<le> max_pages \<longrightarrow> page_count (results st) \<le> max_pages)
         \<and> page_count (results st) = int (length (pages_scraped (results st)))"
  using assms
proof (cases rule: crawl_website_Inr)
  case (failed parsed)
  then show ?thesis by simp
next
  case (crawled parsed exc st1)
  from crawl_try_count [OF crawled(3)] crawled(4) show ?thesis by auto
qed

theorem page_budget_witness:
  "\<exists>st. crawl_website no_bracket_check (site ten_links) 3 {} ''example.com'' = Inr st
        \<and> page_count (results st) \<le> 3
        \<and> page_count (results st) = int (length (pages_scraped (results st)))"
proof -
  have "case crawl_website no_bracket_check (site ten_links) 3 {} ''example.com'' of
          Inl e \<Rightarrow> False | Inr st \<Rightarrow> True"
    by code_simp
  then obtain st where
    st: "crawl_website no_bracket_check (site ten_links) 3 {} ''example.com'' = Inr st"
    by (cases "crawl_website no_bracket_check (site ten_links) 3 {} ''example.com''") auto
  from page_budget [OF st] st show ?thesis by simp
qed

text \<open>
  C2 (the homepage is fatal): when the request for the seed URL raises, or its text is
  refused by the language filter, \<open>crawl_website\<close> returns a result with an error, no
  page counted, no page record and no text, and the seed URL is the only request made.
\<close>

theorem homepage_failure_is_fatal:
  assumes "urlparse chk (seed_url seed) = Inr parsed"
    and "(\<exists>e. response w 0 (seed_url seed) = Inl e)
         \<or> (\<exists>d. response w 0 (seed_url seed) = Inr d \<and> \<not> is_english (doc_text d) (doc_lang d))"
  shows "\<exists>st. crawl_website chk w max_pages visited seed = Inr st
           \<and> base_url (results st) = seed_url seed
           \<and> error (results st) \<noteq> None
           \<and> page_count (results st) = 0
           \<and> pages_scraped (results st) = []
           \<and> total_text (results st) = []
           \<and> requests st = [seed_url seed]
           \<and> visited_urls st = visited"
proof -
  from assms(2) have "\<not> page_success (scrape_page w 0 (seed_url seed))"
    by (simp add: scrape_page_failure)
  with assms(1) show ?thesis
    by (simp add: crawl_website_cases)
qed

theorem homepage_failure_is_fatal_witness:
  "seed_url ''example.com'' = ''https://example.com''
   \<and> response web_down 0 ''https://example.com'' = Inl ''404 Client Error: Not Found''
   \<and> (\<exists>st. crawl_website no_bracket_check web_down 10 {} ''example.com'' = Inr st
         \<and> error (results st) \<noteq> None
         \<and> page_count (results st) = 0
         \<and> pages_scraped (results st) = []
         \<and> requests st = [''https://example.com''])"
proof -
  have s: "seed_url ''example.com'' = ''https://example.com''"
    by code_simp
  have p: "urlparse no_bracket_check (seed_url ''example.com'')
           = Inr \<lparr>scheme = ''https'', netloc = ''example.com'', path = [], params = [],
                  query = [], fragment = []\<rparr>"
    by code_simp
  have r: "response web_down 0 ''https://example.com'' = Inl ''404 Client Error: Not Found''"
    by (simp add: web_down_def)
  have f: "(\<exists>e. response web_down 0 (seed_url ''example.com'') = Inl e)
           \<or> (\<exists>d. response web_down 0 (seed_url ''example.com'') = Inr d
                 \<and> \<not> is_english (doc_text d) (doc_lang d))"
    using r s by simp
  from homepage_failure_is_fatal [OF p f, of 10 "{}"] s r show ?thesis
    by auto
qed

text \<open>
  C3 (no duplicate visits): in the result of one call, the page records have pairwise
  different normal forms, and each of them is in the visited set (a set, which holds
  each normal form once).
\<close>

theorem no_duplicate_pages:
  assumes "crawl_website chk w max_pages visited seed = Inr st"
  shows "distinct (map (\<lambda>r. normalize_url chk (pr_url r)) (pages_scraped (results st)))
         \<and> (\<forall>r \<in> set (pages_scraped (results st)).
               \<exists>n. normalize_url chk (pr_url r) = Inr n \<and> n \<in> visited_urls st)"
proof -
  have "no_duplicates chk st"
    using assms
  proof (cases rule: crawl_website_Inr)
    case (failed parsed)
    then show ?thesis by (simp add: no_duplicates_def)
  next
    case (crawled parsed exc st1)
    from crawl_try_no_duplicates [OF crawled(3)] crawled(4) show ?thesis by simp
  qed
  then show ?thesis by (simp add: no_duplicates_def)
qed

theorem no_duplicate_pages_witness:
  "\<exists>st. crawl_website no_bracket_check (site ten_links_repeated) 10 {} ''example.com'' = Inr st
        \<and> length (pages_scraped (results st)) = 9
        \<and> distinct (map (\<lambda>r. normalize_url no_bracket_check (pr_url r))
                      (pages_scraped (results st)))"
proof -
  have "case crawl_website no_bracket_check (site ten_links_repeated) 10 {} ''example.com'' of
          Inl e \<Rightarrow> False | Inr st \<Rightarrow> length (pages_scraped (results st)) = 9"
    by code_simp
  then obtain st where
    st: "crawl_website no_bracket_check (site ten_links_repeated) 10 {} ''example.com'' = Inr st"
    and n: "length (pages_scraped (results st)) = 9"
    by (cases "crawl_website no_bracket_check (site ten_links_repeated) 10 {} ''example.com''")
       auto
  from no_duplicate_pages [OF st] st n show ?thesis by blast
qed

text \<open>
  C7 (a failed candidate is skipped): when the loop reaches a candidate that is not
  visited, before the timeout, and its request raises or its text is refused by the language
  filter, then: run on this candidate alone, the loop returns without an exception the
  state \<open>st1\<close>, which differs from the state before only in the timeout counter and the
  logged request, so the visited set, the results (records, count, text, error) and the signals
  are unchanged; run on a longer list, it goes on with the remaining candidates from
  \<open>st1\<close>; the next candidate, when it is not visited and the timeout has not fired, is
  requested; and when the remaining candidates normalise, the whole loop ends without an
  exception and leaves the error field as it was.
\<close>

theorem failed_candidate_is_skipped:
  assumes live: "\<not> expired w (clock_checks st)"
    and norm: "normalize_url chk url = Inr normalized"
    and new: "normalized \<notin> visited_urls st"
    and fail: "(\<exists>e. response w (length (requests st)) url = Inl e)
         \<or> (\<exists>d. response w (length (requests st)) url = Inr d
               \<and> \<not> is_english (doc_text d) (doc_lang d))"
    and st1: "st1 = st\<lparr>clock_checks := Suc (clock_checks st), requests := requests st @ [url]\<rparr>"
  shows "crawl_pages chk w [(score, url, link_text)] st = (None, st1)
     \<and> visited_urls st1 = visited_urls st
     \<and> results st1 = results st
     \<and> all_signals st1 = all_signals st
     \<and> crawl_pages chk w ((score, url, link_text) # rest) st = crawl_pages chk w rest st1
     \<and> (\<forall>score' url' text' rest' n'.
           rest = (score', url', text') # rest'
           \<and> \<not> expired w (Suc (clock_checks st))
           \<and> normalize_url chk url' = Inr n' \<and> n' \<notin> visited_urls st
         \<longrightarrow> (\<exists>r. requests (snd (crawl_pages chk w ((score, url, link_text) # rest) st))
                     = requests st @ [url, url'] @ r))
     \<and> ((\<forall>c \<in> set rest. \<exists>n. normalize_url chk (fst (snd c)) = Inr n)
         \<longrightarrow> fst (crawl_pages chk w ((score, url, link_text) # rest) st) = None
             \<and> error (results (snd (crawl_pages chk w ((score, url, link_text) # rest) st)))
                 = error (results st))"
proof -
  have s: "st1 = requested url (ticked st)"
    by (simp add: st1 requested_def ticked_def)
  from fail have nofetch: "\<not> page_success (scrape_page w (length (requests st)) url)"
    by (simp add: scrape_page_failure)
  have step: "\<And>cs. crawl_pages chk w ((score, url, link_text) # cs) st = crawl_pages chk w cs st1"
    unfolding crawl_pages_Cons s using live norm new nofetch by simp
  have one: "crawl_pages chk w [(score, url, link_text)] st = (None, st1)"
    unfolding step by simp
  have same: "visited_urls st1 = visited_urls st" "results st1 = results st"
    "all_signals st1 = all_signals st"
    by (simp_all add: s)
  have nxt: "\<exists>r. requests (snd (crawl_pages chk w ((score, url, link_text) # rest) st))
                  = requests st @ [url, url'] @ r"
    if "rest = (score', url', text') # rest'" "\<not> expired w (Suc (clock_checks st))"
       "normalize_url chk url' = Inr n'" "n' \<notin> visited_urls st"
    for score' url' text' rest' n'
  proof -
    have "\<exists>r. requests (snd (crawl_pages chk w ((score', url', text') # rest') st1))
              = requests st1 @ [url'] @ r"
      using that by (intro crawl_pages_next_requested [of w st1 chk url' n']) (simp_all add: s)
    then show ?thesis
      unfolding step that(1) by (simp add: s)
  qed
  have quiet: "fst (crawl_pages chk w ((score, url, link_text) # rest) st) = None
      \<and> error (results (snd (crawl_pages chk w ((score, url, link_text) # rest) st)))
          = error (results st)"
    if "\<forall>c \<in> set rest. \<exists>n. normalize_url chk (fst (snd c)) = Inr n"
  proof -
    have a: "fst (crawl_pages chk w rest st1) = None"
      using that by (rule crawl_pages_no_exception)
    have "crawl_pages chk w rest st1
          = (fst (crawl_pages chk w rest st1), snd (crawl_pages chk w rest st1))"
      by simp
    from crawl_pages_base_url [OF this]
    have "error (results (snd (crawl_pages chk w rest st1))) = error (results st1)"
      by simp
    with a same(2) show ?thesis unfolding step by simp
  qed
  show ?thesis
    using one same step [of rest] nxt quiet by blast
qed

theorem failed_candidate_is_skipped_witness:
  "fst (crawl_pages no_bracket_check (site_with_dead_link ''https://example.com/about'' [])
          [(30, ''https://example.com/about'', ''About''),
           (10, ''https://example.com/blog'', ''Blog'')]
          (init_state {} ''https://example.com'')) = None
   \<and> requests (snd (crawl_pages no_bracket_check
          (site_with_dead_link ''https://example.com/about'' [])
          [(30, ''https://example.com/about'', ''About''),
           (10, ''https://example.com/blog'', ''Blog'')]
          (init_state {} ''https://example.com'')))
       = [''https://example.com'', ''https://example.com/about'', ''https://example.com/blog'']
   \<and> map pr_url (pages_scraped (results (snd (crawl_pages no_bracket_check
          (site_with_dead_link ''https://example.com/about'' [])
          [(30, ''https://example.com/about'', ''About''),
           (10, ''https://example.com/blog'', ''Blog'')]
          (init_state {} ''https://example.com'')))))
       = [''https://example.com/blog'']
   \<and> page_count (results (snd (crawl_pages no_bracket_check
          (site_with_dead_link ''https://example.com/about'' [])
          [(30, ''https://example.com/about'', ''About''),
           (10, ''https://example.com/blog'', ''Blog'')]
          (init_state {} ''https://example.com'')))) = 1
   \<and> ''https://example.com/about'' \<notin> visited_urls (snd (crawl_pages no_bracket_check
          (site_with_dead_link ''https://example.com/about'' [])
          [(30, ''https://example.com/about'', ''About''),
           (10, ''https://example.com/blog'', ''Blog'')]
          (init_state {} ''https://example.com'')))"
proof -
  define w where "w = site_with_dead_link ''https://example.com/about'' []"
  define st where "st = init_state {} ''https://example.com''"
  define st1 where "st1 = st\<lparr>clock_checks := Suc (clock_checks st),
                              requests := requests st @ [''https://example.com/about'']\<rparr>"
  have t: "\<not> expired w (clock_checks st)"
    by (simp add: w_def site_with_dead_link_def)
  have n: "normalize_url no_bracket_check ''https://example.com/about''
           = Inr ''https://example.com/about''"
    by code_simp
  have v: "''https://example.com/about'' \<notin> visited_urls st"
    by (simp add: st_def)
  have f: "(\<exists>e. response w (length (requests st)) ''https://example.com/about'' = Inl e)
           \<or> (\<exists>d. response w (length (requests st)) ''https://example.com/about'' = Inr d
                 \<and> \<not> is_english (doc_text d) (doc_lang d))"
    by (simp add: w_def site_with_dead_link_def)
  note T = failed_candidate_is_skipped [OF t n v f st1_def, of 30 "''About''"
             "[(10, ''https://example.com/blog'', ''Blog'')]"]
  from T have eq: "crawl_pages no_bracket_check w
         [(30, ''https://example.com/about'', ''About''),
          (10, ''https://example.com/blog'', ''Blog'')] st
       = crawl_pages no_bracket_check w [(10, ''https://example.com/blog'', ''Blog'')] st1"
    by blast
  have ev: "fst (crawl_pages no_bracket_check w [(10, ''https://example.com/blog'', ''Blog'')] st1)
              = None
     \<and> requests (snd (crawl_pages no_bracket_check w
            [(10, ''https://example.com/blog'', ''Blog'')] st1))
         = [''https://example.com'', ''https://example.com/about'', ''https://example.com/blog'']
     \<and> map pr_url (pages_scraped (results (snd (crawl_pages no_bracket_check w
            [(10, ''https://example.com/blog'', ''Blog'')] st1))))
         = [''https://example.com/blog'']
     \<and> page_count (results (snd (crawl_pages no_bracket_check w
            [(10, ''https://example.com/blog'', ''Blog'')] st1))) = 1
     \<and> ''https://example.com/about'' \<notin> visited_urls (snd (crawl_pages no_bracket_check w
            [(10, ''https://example.com/blog'', ''Blog'')] st1))"
    unfolding w_def st1_def st_def by code_simp
  from ev [folded eq] show ?thesis
    unfolding w_def st_def .
qed

text \<open>
  C6 (ranking and budget), as stated: with \<open>max_pages = 3\<close> and ten scored candidates,
  exactly the two best are fetched after the homepage. Below, the homepage links to
  \<open>/about-us\<close> and to \<open>/about-us/\<close>; both are among the ten candidates and rank first and
  second, the second is visited already when its turn comes, and no third candidate takes
  its place.
\<close>

theorem top_two_counterexample:
  "length (candidates no_bracket_check {''https://example.com''} ''example.com''
             ten_links_repeated) = 10
   \<and> map_sum str_of_exn requests
       (crawl_website no_bracket_check (site ten_links_repeated) 3 {} ''example.com'')
     = Inr [''https://example.com'', ''https://example.com/about-us'']"
  by code_simp

text \<open>
  C6, amended: for \<open>max_pages\<close> at least 1 and a crawl that ends without an error, the
  candidates are the homepage's links that normalise to an unvisited URL, are valid and score
  above 0, in document order; they are sorted by descending score, and the sort is stable; the
  requests after the homepage are, in order, a subsequence of the first \<open>max_pages - 1\<close>
  sorted candidates; they are all of them when the timeout never fires and their normal
  forms are pairwise different.
\<close>

theorem ranked_candidates_fetched_in_order:
  assumes "crawl_website chk w max_pages visited seed = Inr st"
    and "error (results st) = None"
    and "1 \<le> max_pages"
  shows "\<exists>parsed n d scored.
      urlparse chk (seed_url seed) = Inr parsed
      \<and> normalize_url chk (seed_url seed) = Inr n
      \<and> response w 0 (seed_url seed) = Inr d
      \<and> scored = candidates chk (insert n visited) (netloc parsed) (doc_links d)
      \<and> sorted_wrt (\<lambda>a b. fst a \<ge> fst b) (sort_reverse_by_score scored)
      \<and> (\<forall>k. filter (\<lambda>c. fst c = k) (sort_reverse_by_score scored)
               = filter (\<lambda>c. fst c = k) scored)
      \<and> (\<exists>r. requests st = seed_url seed # r
            \<and> subseq r (map (\<lambda>c. fst (snd c))
                          (take (nat (max_pages - 1)) (sort_reverse_by_score scored)))
            \<and> ((\<forall>k. \<not> expired w k)
                 \<and> distinct (map (\<lambda>c. normalize_url chk (fst (snd c)))
                               (take (nat (max_pages - 1)) (sort_reverse_by_score scored)))
               \<longrightarrow> r = map (\<lambda>c. fst (snd c))
                          (take (nat (max_pages - 1)) (sort_reverse_by_score scored))))"
  using assms(1)
proof (cases rule: crawl_website_Inr)
  case (failed parsed)
  with assms(2) show ?thesis by simp
next
  case (crawled parsed exc st1)
  have exc: "exc = None"
    using assms(2) crawled(4) by (cases exc) simp_all
  from crawled(2) obtain d where d: "response w 0 (seed_url seed) = Inr d"
    "page_links (scrape_page w 0 (seed_url seed)) = doc_links d"
    by (rule scrape_page_success)
  from crawl_try_requests [OF crawled(3) [unfolded exc] assms(3)]
  obtain n r where n: "normalize_url chk (seed_url seed) = Inr n"
    and r: "requests st1 = [seed_url seed] @ r"
      "subseq r (map (\<lambda>c. fst (snd c)) (take (nat (max_pages - 1)) (sort_reverse_by_score
          (candidates chk (insert n visited) (netloc parsed) (doc_links d)))))"
      "(\<forall>k. \<not> expired w k)
         \<and> distinct (map (\<lambda>c. normalize_url chk (fst (snd c)))
              (take (nat (max_pages - 1)) (sort_reverse_by_score
                 (candidates chk (insert n visited) (netloc parsed) (doc_links d)))))
       \<longrightarrow> r = map (\<lambda>c. fst (snd c)) (take (nat (max_pages - 1)) (sort_reverse_by_score
                 (candidates chk (insert n visited) (netloc parsed) (doc_links d))))"
    unfolding d(2) by auto
  have req: "requests st = seed_url seed # r"
    using r(1) crawled(4) by simp
  show ?thesis
    using crawled(1) n d(1) req r(2,3) sort_reverse_by_score_sorted sort_reverse_by_score_stable
    by blast
qed

theorem ranked_candidates_fetched_in_order_witness:
  "\<exists>st. crawl_website no_bracket_check (site ten_links) 3 {} ''example.com'' = Inr st
        \<and> error (results st) = None
        \<and> requests st = [''https://example.com'', ''https://example.com/about-us'',
                          ''https://example.com/services'']"
proof -
  have "case crawl_website no_bracket_check (site ten_links) 3 {} ''example.com'' of
          Inl e \<Rightarrow> False | Inr st \<Rightarrow> error (results st) = None"
    by code_simp
  then obtain st where
    st: "crawl_website no_bracket_check (site ten_links) 3 {} ''example.com'' = Inr st"
    and err: "error (results st) = None"
    by (cases "crawl_website no_bracket_check (site ten_links) 3 {} ''example.com''") auto
  have s: "seed_url ''example.com'' = ''https://example.com''"
    by code_simp
  have p: "urlparse no_bracket_check ''https://example.com''
           = Inr \<lparr>scheme = ''https'', netloc = ''example.com'', path = [], params = [],
                  query = [], fragment = []\<rparr>"
    by code_simp
  have nz: "normalize_url no_bracket_check ''https://example.com'' = Inr ''https://example.com''"
    by code_simp
  have top: "take (nat (3 - 1)) (sort_reverse_by_score
               (candidates no_bracket_check (insert ''https://example.com'' {}) ''example.com''
                  ten_links))
             = [(40, ''https://example.com/about-us'', ''About Us''),
                (30, ''https://example.com/services'', ''Services'')]"
    by code_simp
  have dist: "distinct (map (\<lambda>c. normalize_url no_bracket_check (fst (snd c)))
                [(40, ''https://example.com/about-us'', ''About Us''),
                 (30, ''https://example.com/services'', ''Services'')])"
    by code_simp
  have clock: "\<forall>k. \<not> expired (site ten_links) k"
    by (simp add: site_def)
  have one: "(1::int) \<le> 3"
    by simp
  from ranked_candidates_fetched_in_order [OF st err one]
  obtain parsed n d r where
    f: "urlparse no_bracket_check (seed_url ''example.com'') = Inr parsed"
       "normalize_url no_bracket_check (seed_url ''example.com'') = Inr n"
       "response (site ten_links) 0 (seed_url ''example.com'') = Inr d"
       "requests st = seed_url ''example.com'' # r"
       "(\<forall>k. \<not> expired (site ten_links) k)
         \<and> distinct (map (\<lambda>c. normalize_url no_bracket_check (fst (snd c)))
              (take (nat (3 - 1)) (sort_reverse_by_score
                 (candidates no_bracket_check (insert n {}) (netloc parsed) (doc_links d)))))
        \<longrightarrow> r = map (\<lambda>c. fst (snd c)) (take (nat (3 - 1)) (sort_reverse_by_score
                 (candidates no_bracket_check (insert n {}) (netloc parsed) (doc_links d))))"
    by blast
  have "netloc parsed = ''example.com''"
    using f(1) p s by auto
  moreover have "n = ''https://example.com''"
    using f(2) nz s by simp
  moreover have "doc_links d = ten_links"
    using f(3) by (auto simp: site_def)
  ultimately have "r = [''https://example.com/about-us'', ''https://example.com/services'']"
    using f(5) clock dist top by simp
  with f(4) s st err show ?thesis by simp
qed

section \<open>URL normalisation\<close>

lemma takeWhile_absent: "c \<notin> set t \<Longrightarrow> takeWhile (\<lambda>x. x \<noteq> c) t = t"
  by (induction t) auto

lemma fst_split1_if:
  "fst (if c \<in> set t then split1 c t else (t, [])) = takeWhile (\<lambda>x. x \<noteq> c) t"
  by (simp add: split1_def takeWhile_absent)

lemma path_of_takeWhile:
  "takeWhile (\<lambda>c. c \<noteq> CHR ''?'') (takeWhile (\<lambda>c. c \<noteq> CHR ''#'') t) = path_of t"
  unfolding path_of_def by (induction t) auto

lemma urlsplit_parts:
  "urlsplit chk u =
     (if brackets_ok chk (fst (net_split (snd (split_scheme (url_clean u)))))
      then Inr \<lparr>scheme = fst (split_scheme (url_clean u)),
                netloc = fst (net_split (snd (split_scheme (url_clean u)))),
                path = path_of (snd (net_split (snd (split_scheme (url_clean u))))),
                params = [],
                query = snd (if CHR ''?'' \<in> set (takeWhile (\<lambda>x. x \<noteq> CHR ''#'')
                                  (snd (net_split (snd (split_scheme (url_clean u))))))
                             then split1 (CHR ''?'') (takeWhile (\<lambda>x. x \<noteq> CHR ''#'')
                                  (snd (net_split (snd (split_scheme (url_clean u))))))
                             else (takeWhile (\<lambda>x. x \<noteq> CHR ''#'')
                                  (snd (net_split (snd (split_scheme (url_clean u))))), [])),
                fragment = snd (if CHR ''#'' \<in> set (snd (net_split (snd (split_scheme (url_clean u)))))
                                then split1 (CHR ''#'') (snd (net_split (snd (split_scheme (url_clean u)))))
                                else (snd (net_split (snd (split_scheme (url_clean u)))), []))\<rparr>
      else Inl (bracket_error chk (fst (net_split (snd (split_scheme (url_clean u)))))))"
  unfolding urlsplit_def Let_def split_beta url_clean_def [symmetric] net_split_def [symmetric]
    fst_split1_if path_of_takeWhile
  by (auto simp: brackets_ok_def bracket_error_def split: option.splits)

lemma urlparse_parts:
  "urlparse chk u =
     (case urlsplit chk u of
        Inl e \<Rightarrow> Inl e
      | Inr r \<Rightarrow> Inr (r\<lparr>path := ppath (scheme r) (path r),
                         params := snd (if scheme r \<in> set uses_params \<and> CHR '';'' \<in> set (path r)
                                        then splitparams (path r) else (path r, []))\<rparr>))"
  by (simp add: urlparse_def ppath_def split_beta split: sum.splits)

lemma normalize_url_parts:
  "normalize_url chk u =
     (if brackets_ok chk (fst (net_split (snd (split_scheme (url_clean u)))))
      then Inr (fst (split_scheme (url_clean u)) @ ''://''
                @ fst (net_split (snd (split_scheme (url_clean u))))
                @ rstrip_char (CHR ''/'')
                    (ppath (fst (split_scheme (url_clean u)))
                       (path_of (snd (net_split (snd (split_scheme (url_clean u))))))))
      else Inl (bracket_error chk (fst (net_split (snd (split_scheme (url_clean u)))))))"
  unfolding normalize_url_def urlparse_parts
  by (subst urlsplit_parts) (simp add: Let_def)

lemma while_append_stop:
  "\<not> P d \<Longrightarrow> takeWhile P (a @ d # y) = takeWhile P a"
  "\<not> P d \<Longrightarrow> dropWhile P (a @ d # y) = dropWhile P a @ d # y"
  by (induction a) auto

lemma hash_not_c0: "\<not> WHATWG_C0_CONTROL_OR_SPACE (CHR ''#'')"
  by (simp add: WHATWG_C0_CONTROL_OR_SPACE_def)

lemma slash_not_c0: "\<not> WHATWG_C0_CONTROL_OR_SPACE (CHR ''/'')"
  by (simp add: WHATWG_C0_CONTROL_OR_SPACE_def)

lemma url_clean_append:
  assumes "\<not> WHATWG_C0_CONTROL_OR_SPACE d"
  shows "url_clean (u @ d # y)
         = url_clean u @ filter (\<lambda>c. c \<notin> set UNSAFE_URL_BYTES_TO_REMOVE) (d # y)"
  unfolding url_clean_def while_append_stop(2) [of WHATWG_C0_CONTROL_OR_SPACE, OF assms]
  by simp

lemma split_scheme_append:
  assumes "d \<notin> set scheme_chars" "d \<noteq> CHR '':''"
  shows "split_scheme (c @ d # y) = (fst (split_scheme c), snd (split_scheme c) @ d # y)"
proof (cases "CHR '':'' \<in> set c")
  case True
  then have pre: "takeWhile (\<lambda>x. x \<noteq> CHR '':'') (c @ d # y) = takeWhile (\<lambda>x. x \<noteq> CHR '':'') c"
    using takeWhile_append1 [of "CHR '':''" c "\<lambda>x. x \<noteq> CHR '':''"] by simp
  have ne: "c \<noteq> []" using True by auto
  have len: "length (takeWhile (\<lambda>x. x \<noteq> CHR '':'') c) < length c"
    using True by (induction c) auto
  have hd: "hd (c @ d # y) = hd c"
    using ne by simp
  have colon: "CHR '':'' \<in> set (c @ d # y)"
    using True by simp
  have dr: "drop (length (takeWhile (\<lambda>x. x \<noteq> CHR '':'') c) + 1) (c @ d # y)
            = drop (length (takeWhile (\<lambda>x. x \<noteq> CHR '':'') c) + 1) c @ d # y"
    using len by simp
  show ?thesis
    unfolding split_scheme_def Let_def pre hd dr
    using True colon by simp
next
  case False
  then have a: "split_scheme c = ([], c)"
    by (simp add: split_scheme_def)
  have "d \<in> set (takeWhile (\<lambda>x. x \<noteq> CHR '':'') (c @ d # y))"
  proof -
    have "takeWhile (\<lambda>x. x \<noteq> CHR '':'') (c @ d # y)
          = c @ takeWhile (\<lambda>x. x \<noteq> CHR '':'') (d # y)"
      using False by (intro takeWhile_append2) auto
    then show ?thesis using assms(2) by simp
  qed
  then have "\<not> list_all (\<lambda>x. x \<in> set scheme_chars) (takeWhile (\<lambda>x. x \<noteq> CHR '':'') (c @ d # y))"
    using assms(1) by (auto simp: list_all_iff)
  then have "split_scheme (c @ d # y) = ([], c @ d # y)"
    by (simp add: split_scheme_def Let_def)
  with a show ?thesis by simp
qed

lemma hash_not_scheme_char: "CHR ''#'' \<notin> set scheme_chars"
  by (simp add: scheme_chars_def)

lemma slash_not_scheme_char: "CHR ''/'' \<notin> set scheme_chars"
  by (simp add: scheme_chars_def)

lemma take2_append_hash: "take 2 (r @ CHR ''#'' # y) = ''//'' \<longleftrightarrow> take 2 r = ''//''"
proof (cases r)
  case Nil
  then show ?thesis by simp
next
  case (Cons a r')
  then show ?thesis by (cases r') auto
qed

lemma net_split_append_hash:
  "net_split (r @ CHR ''#'' # y) = (fst (net_split r), snd (net_split r) @ CHR ''#'' # y)"
proof (cases "take 2 r = ''//''")
  case True
  then have "2 \<le> length r" by (cases r; cases "tl r") auto
  then have d: "drop 2 (r @ CHR ''#'' # y) = drop 2 r @ CHR ''#'' # y" by simp
  show ?thesis
    using True unfolding net_split_def take2_append_hash splitnetloc_def Let_def d
    by (simp add: while_append_stop netloc_delim_def)
next
  case False
  then show ?thesis
    unfolding net_split_def take2_append_hash by simp
qed

lemma path_of_append_hash: "path_of (t @ CHR ''#'' # y) = path_of t"
  unfolding path_of_def by (simp add: while_append_stop)

lemma normalize_url_fragment:
  "normalize_url chk (u @ ''#'' @ f) = normalize_url chk u"
proof -
  have c: "url_clean (u @ ''#'' @ f)
           = url_clean u @ CHR ''#'' # filter (\<lambda>c. c \<notin> set UNSAFE_URL_BYTES_TO_REMOVE) f"
    using url_clean_append [OF hash_not_c0, of u f]
    by (simp add: UNSAFE_URL_BYTES_TO_REMOVE_def)
  show ?thesis
    unfolding normalize_url_parts c
      split_scheme_append [OF hash_not_scheme_char, simplified]
    by (simp add: net_split_append_hash path_of_append_hash)
qed

lemma take2_append_slash:
  "r \<noteq> ''/'' \<Longrightarrow> take 2 (r @ ''/'') = ''//'' \<longleftrightarrow> take 2 r = ''//''"
proof (cases r)
  case Nil
  then show ?thesis by simp
next
  case (Cons a r')
  assume "r \<noteq> ''/''"
  with Cons show ?thesis by (cases r') auto
qed

lemma net_split_append_slash:
  assumes "r \<noteq> ''/''"
  shows "net_split (r @ ''/'') = (fst (net_split r), snd (net_split r) @ ''/'')"
proof (cases "take 2 r = ''//''")
  case True
  then have "2 \<le> length r" by (cases r; cases "tl r") auto
  then have d: "drop 2 (r @ ''/'') = drop 2 r @ ''/''" by simp
  show ?thesis
    using True unfolding net_split_def take2_append_slash [OF assms] splitnetloc_def Let_def d
    by (simp add: while_append_stop netloc_delim_def)
next
  case False
  then show ?thesis
    unfolding net_split_def take2_append_slash [OF assms] by simp
qed

lemma net_split_slashes:
  "net_split ''/'' = ([], ''/'')" "net_split ''//'' = ([], [])"
  by (simp_all add: net_split_def splitnetloc_def)

lemma path_of_append_slash:
  "path_of (t @ ''/'') = (if \<forall>c \<in> set t. c \<noteq> CHR ''#'' \<and> c \<noteq> CHR ''?'' then t @ ''/'' else path_of t)"
  unfolding path_of_def by (induction t) auto

lemma path_of_id: "\<forall>c \<in> set t. c \<noteq> CHR ''#'' \<and> c \<noteq> CHR ''?'' \<Longrightarrow> path_of t = t"
  unfolding path_of_def by (induction t) auto

lemma rstrip_append_slash: "rstrip_char (CHR ''/'') (p @ ''/'') = rstrip_char (CHR ''/'') p"
  by (simp add: rstrip_char_def)

lemma set_url_clean: "set (url_clean u) \<subseteq> set u"
  unfolding url_clean_def using set_dropWhileD by fastforce

lemma set_split_scheme: "set (snd (split_scheme c)) \<subseteq> set c"
  unfolding split_scheme_def Let_def by (auto dest: in_set_dropD)

lemma set_net_split: "set (snd (net_split r)) \<subseteq> set r" "set (fst (net_split r)) \<subseteq> set r"
  unfolding net_split_def splitnetloc_def Let_def
  by (auto dest: set_dropWhileD in_set_dropD set_takeWhileD)

lemma set_path_of: "set (path_of t) \<subseteq> set t"
  unfolding path_of_def by (auto dest: set_takeWhileD)

lemma ppath_id: "CHR '';'' \<notin> set p \<Longrightarrow> ppath s p = p"
  by (simp add: ppath_def)

lemma normalize_url_slash:
  assumes "CHR '';'' \<notin> set u"
  shows "normalize_url chk (u @ ''/'') = normalize_url chk u"
proof -
  define c where "c = url_clean u"
  define s where "s = fst (split_scheme c)"
  define r where "r = snd (split_scheme c)"
  define n where "n = fst (net_split r)"
  define t where "t = snd (net_split r)"
  have c': "url_clean (u @ ''/'') = c @ ''/''"
    using url_clean_append [OF slash_not_c0, of u "[]"]
    by (simp add: UNSAFE_URL_BYTES_TO_REMOVE_def c_def)
  have s': "split_scheme (c @ ''/'') = (s, r @ ''/'')"
    using split_scheme_append [OF slash_not_scheme_char, of c "[]"] by (simp add: s_def r_def)
  have semi_r: "CHR '';'' \<notin> set r"
    using assms set_url_clean [of u] set_split_scheme [of c] unfolding r_def c_def by blast
  have semi_t: "CHR '';'' \<notin> set t"
    using semi_r set_net_split(1) [of r] unfolding t_def by blast
  have old: "normalize_url chk u =
     (if brackets_ok chk n
      then Inr (s @ ''://'' @ n @ rstrip_char (CHR ''/'') (ppath s (path_of t)))
      else Inl (bracket_error chk n))"
    unfolding normalize_url_parts by (simp add: c_def s_def r_def n_def t_def)
  have new: "normalize_url chk (u @ ''/'') =
     (if brackets_ok chk (fst (net_split (r @ ''/'')))
      then Inr (s @ ''://'' @ fst (net_split (r @ ''/''))
                @ rstrip_char (CHR ''/'') (ppath s (path_of (snd (net_split (r @ ''/''))))))
      else Inl (bracket_error chk (fst (net_split (r @ ''/'')))))"
    unfolding normalize_url_parts c' s' by simp
  show ?thesis
  proof (cases "r = ''/''")
    case True
    have "n = []" "t = ''/''"
      using True by (simp_all add: n_def t_def net_split_slashes)
    moreover have "path_of ''/'' = ''/''" "path_of [] = []"
      by (simp_all add: path_of_def)
    ultimately show ?thesis
      unfolding old new True
      by (simp add: net_split_slashes ppath_id rstrip_char_def)
  next
    case False
    have ns: "net_split (r @ ''/'') = (n, t @ ''/'')"
      using net_split_append_slash [OF False] by (simp add: n_def t_def)
    have semi_p: "CHR '';'' \<notin> set (path_of t)" "CHR '';'' \<notin> set (path_of (t @ ''/''))"
      using semi_t set_path_of [of t] set_path_of [of "t @ ''/''"] by auto
    have "rstrip_char (CHR ''/'') (path_of (t @ ''/'')) = rstrip_char (CHR ''/'') (path_of t)"
      by (auto simp: path_of_append_slash path_of_id rstrip_append_slash simp del: append.simps)
    then show ?thesis
      unfolding old new ns by (simp add: ppath_id semi_p)
  qed
qed

lemma scheme_chars_lower:
  "\<forall>x \<in> set scheme_chars.
     lower_char x \<in> set scheme_chars
     \<and> lower_char (lower_char x) = lower_char x
     \<and> lower_char x \<noteq> CHR '':''
     \<and> \<not> WHATWG_C0_CONTROL_OR_SPACE (lower_char x)
     \<and> lower_char x \<notin> set UNSAFE_URL_BYTES_TO_REMOVE
     \<and> (isascii_isalpha x \<longrightarrow> isascii_isalpha (lower_char x))"
  by code_simp

lemma split_scheme_fst:
  assumes "fst (split_scheme c) \<noteq> []"
  shows "\<forall>x \<in> set (fst (split_scheme c)).
           x \<in> set scheme_chars \<and> lower_char x = x \<and> x \<noteq> CHR '':''
           \<and> x \<notin> set UNSAFE_URL_BYTES_TO_REMOVE"
    and "isascii_isalpha (hd (fst (split_scheme c)))"
    and "\<not> WHATWG_C0_CONTROL_OR_SPACE (hd (fst (split_scheme c)))"
proof -
  define pre where "pre = takeWhile (\<lambda>x. x \<noteq> CHR '':'') c"
  have cond: "pre \<noteq> []" "isascii_isalpha (hd c)" "list_all (\<lambda>x. x \<in> set scheme_chars) pre"
    and s: "fst (split_scheme c) = map lower_char pre"
    using assms unfolding split_scheme_def Let_def pre_def lower_def
    by (auto split: if_splits)
  have hdpre: "hd pre = hd c"
    using cond(1) unfolding pre_def by (cases c) (auto split: if_splits)
  have inpre: "\<And>x. x \<in> set pre \<Longrightarrow> x \<in> set scheme_chars"
    using cond(3) by (simp add: list_all_iff)
  show "\<forall>x \<in> set (fst (split_scheme c)).
           x \<in> set scheme_chars \<and> lower_char x = x \<and> x \<noteq> CHR '':''
           \<and> x \<notin> set UNSAFE_URL_BYTES_TO_REMOVE"
    unfolding s using inpre scheme_chars_lower by auto
  have "hd pre \<in> set scheme_chars"
    using cond(1) inpre by simp
  moreover have "hd (fst (split_scheme c)) = lower_char (hd pre)"
    unfolding s using cond(1) by (simp add: hd_map)
  ultimately show "isascii_isalpha (hd (fst (split_scheme c)))"
    and "\<not> WHATWG_C0_CONTROL_OR_SPACE (hd (fst (split_scheme c)))"
    using scheme_chars_lower cond(2) hdpre by auto
qed

lemma split_scheme_built:
  assumes "s \<noteq> []"
    and "\<forall>x \<in> set s. x \<in> set scheme_chars \<and> lower_char x = x \<and> x \<noteq> CHR '':''"
    and "isascii_isalpha (hd s)"
  shows "split_scheme (s @ ''://'' @ rest) = (s, ''//'' @ rest)"
proof -
  have pre: "takeWhile (\<lambda>x. x \<noteq> CHR '':'') (s @ ''://'' @ rest) = s"
    using assms(2) by (simp add: takeWhile_append2)
  have hd: "hd (s @ ''://'' @ rest) = hd s"
    using assms(1) by simp
  have low: "lower s = s"
    unfolding lower_def using assms(2) by (simp add: map_idI)
  have all: "list_all (\<lambda>x. x \<in> set scheme_chars) s"
    using assms(2) by (simp add: list_all_iff)
  have dr: "drop (length s + 1) (s @ ''://'' @ rest) = ''//'' @ rest"
    by simp
  have colon: "CHR '':'' \<in> set (s @ ''://'' @ rest)"
    by simp
  show ?thesis
    unfolding split_scheme_def Let_def pre hd low dr
    using assms(1,3) all colon by simp
qed

lemma url_clean_built:
  assumes "x \<noteq> []" "\<not> WHATWG_C0_CONTROL_OR_SPACE (hd x)"
    and "\<forall>c \<in> set x. c \<notin> set UNSAFE_URL_BYTES_TO_REMOVE"
  shows "url_clean x = x"
proof -
  have "dropWhile WHATWG_C0_CONTROL_OR_SPACE x = x"
    using assms(1,2) by (cases x) auto
  then show ?thesis
    unfolding url_clean_def using assms(3) by (simp add: filter_id_conv)
qed

lemma net_split_built:
  assumes "\<forall>x \<in> set n. \<not> netloc_delim x" "q = [] \<or> netloc_delim (hd q)"
  shows "net_split (''//'' @ n @ q) = (n, q)"
proof -
  have "takeWhile (\<lambda>c. \<not> netloc_delim c) (n @ q) = n"
       "dropWhile (\<lambda>c. \<not> netloc_delim c) (n @ q) = q"
    using assms by (cases q; simp add: takeWhile_append2 dropWhile_append2)+
  then show ?thesis
    by (simp add: net_split_def splitnetloc_def)
qed

lemma net_split_fst:
  assumes "fst (net_split r) \<noteq> []"
  shows "\<forall>x \<in> set (fst (net_split r)). \<not> netloc_delim x"
    and "snd (net_split r) = [] \<or> netloc_delim (hd (snd (net_split r)))"
proof -
  have two: "take 2 r = ''//''"
    using assms by (auto simp: net_split_def split: if_splits)
  show "\<forall>x \<in> set (fst (net_split r)). \<not> netloc_delim x"
    using two by (auto simp: net_split_def splitnetloc_def Let_def dest: set_takeWhileD)
  show "snd (net_split r) = [] \<or> netloc_delim (hd (snd (net_split r)))"
    using two hd_dropWhile [of "\<lambda>c. \<not> netloc_delim c" "drop 2 r"]
    by (auto simp: net_split_def splitnetloc_def Let_def)
qed

lemma unsafe_free_url_clean: "\<forall>c \<in> set (url_clean u). c \<notin> set UNSAFE_URL_BYTES_TO_REMOVE"
  by (simp add: url_clean_def)

lemma rstrip_prefix: "prefix (rstrip_char c p) p"
proof -
  have "p = rev (dropWhile (\<lambda>x. x = c) (rev p)) @ rev (takeWhile (\<lambda>x. x = c) (rev p))"
    by (metis rev_append rev_rev_ident takeWhile_dropWhile_id)
  then show ?thesis
    unfolding rstrip_char_def by (metis prefixI)
qed

lemma rstrip_idem: "rstrip_char c (rstrip_char c p) = rstrip_char c p"
  by (simp add: rstrip_char_def)

lemma ppath_prefix: "prefix (ppath s p) p"
  by (auto simp: ppath_def splitparams_def Let_def take_is_prefix)

lemma path_of_prefix: "prefix (path_of t) t"
  unfolding path_of_def by (metis prefixI takeWhile_dropWhile_id)

lemma path_of_chars: "\<forall>c \<in> set (path_of t). c \<noteq> CHR ''#'' \<and> c \<noteq> CHR ''?''"
  unfolding path_of_def by (auto dest: set_takeWhileD)

lemma prefix_chain: "prefix a b \<Longrightarrow> prefix b c \<Longrightarrow> prefix a c"
  by (auto simp: prefix_def)

lemma prefix_set: "prefix a b \<Longrightarrow> x \<in> set a \<Longrightarrow> x \<in> set b"
  by (auto simp: prefix_def)

lemma prefix_hd: "prefix q t \<Longrightarrow> q \<noteq> [] \<Longrightarrow> hd q = hd t"
  by (auto simp: prefix_def)

text \<open>
  C9 (normalisation), as stated: \<open>normalize_url\<close> is idempotent on every string, and two
  URLs that differ by a trailing slash have the same normal form. A string without a scheme
  gains \<open>://\<close> at each application; and a \<open>;\<close> in the last path segment starts the
  parameters, which are dropped, while before a trailing slash it stays in the path.
\<close>

theorem normalize_url_counterexample:
  "normalize_url no_bracket_check ''example.com'' = Inr ''://example.com''
   \<and> normalize_url no_bracket_check ''://example.com'' = Inr ''://://example.com''
   \<and> normalize_url no_bracket_check ''http://example.com/a;b'' = Inr ''http://example.com/a''
   \<and> normalize_url no_bracket_check ''http://example.com/a;b/'' = Inr ''http://example.com/a;b''"
  by code_simp

lemma normalize_url_idem:
  assumes p: "urlparse chk u = Inr p"
    and sch: "scheme p \<noteq> []" and net: "netloc p \<noteq> []"
    and semi: "CHR '';'' \<notin> set (path p)"
  shows "normalize_url chk u = Inr (scheme p @ ''://'' @ netloc p @ rstrip_char (CHR ''/'') (path p))"
    and "normalize_url chk (scheme p @ ''://'' @ netloc p @ rstrip_char (CHR ''/'') (path p))
         = Inr (scheme p @ ''://'' @ netloc p @ rstrip_char (CHR ''/'') (path p))"
proof -
  define c where "c = url_clean u"
  define s where "s = fst (split_scheme c)"
  define r where "r = snd (split_scheme c)"
  define n where "n = fst (net_split r)"
  define t where "t = snd (net_split r)"
  define q where "q = rstrip_char (CHR ''/'') (ppath s (path_of t))"
  have parsed: "brackets_ok chk n \<and> scheme p = s \<and> netloc p = n
                \<and> path p = ppath s (path_of t)"
    using p unfolding urlparse_parts urlsplit_parts [of chk u] c_def s_def r_def n_def t_def
    by (auto split: if_splits)
  then have ok: "brackets_ok chk n"
    and fields: "scheme p = s" "netloc p = n" "path p = ppath s (path_of t)"
    by simp_all
  show first: "normalize_url chk u
      = Inr (scheme p @ ''://'' @ netloc p @ rstrip_char (CHR ''/'') (path p))"
    using p by (simp add: normalize_url_def)
  have s_ne: "s \<noteq> []" and n_ne: "n \<noteq> []"
    using sch net fields by simp_all
  note sf = split_scheme_fst [of c, folded s_def, OF s_ne]
  note nf = net_split_fst [of r, folded n_def t_def, OF n_ne]
  have clean: "\<forall>x \<in> set c. x \<notin> set UNSAFE_URL_BYTES_TO_REMOVE"
    unfolding c_def by (rule unsafe_free_url_clean)
  have r_sub: "\<And>x. x \<in> set r \<Longrightarrow> x \<in> set c"
    using set_split_scheme [of c] unfolding r_def by auto
  have n_sub: "\<And>x. x \<in> set n \<Longrightarrow> x \<in> set c"
    using set_net_split(2) [of r] r_sub unfolding n_def by auto
  have t_sub: "\<And>x. x \<in> set t \<Longrightarrow> x \<in> set c"
    using set_net_split(1) [of r] r_sub unfolding t_def by auto
  have q_pp: "prefix q (ppath s (path_of t))"
    unfolding q_def by (rule rstrip_prefix)
  have q_pre: "prefix q (path_of t)"
    using q_pp ppath_prefix by (rule prefix_chain)
  have q_pre_t: "prefix q t"
    using q_pre path_of_prefix by (rule prefix_chain)
  have q_hd: "q = [] \<or> netloc_delim (hd q)"
  proof (cases "q = []")
    case True
    then show ?thesis by simp
  next
    case False
    then have "t \<noteq> []" using q_pre_t by auto
    with nf(2) have "netloc_delim (hd t)" by simp
    with prefix_hd [OF q_pre_t False] show ?thesis by simp
  qed
  have q_semi: "CHR '';'' \<notin> set q"
    using semi prefix_set [OF q_pp] unfolding fields(3) by auto
  have q_chars: "\<forall>c \<in> set q. c \<noteq> CHR ''#'' \<and> c \<noteq> CHR ''?''"
    using path_of_chars [of t] prefix_set [OF q_pre] by auto
  have q_path: "path_of q = q"
    using q_chars by (rule path_of_id)
  define R where "R = s @ ''://'' @ n @ q"
  have R_clean: "url_clean R = R"
  proof (rule url_clean_built)
    show "R \<noteq> []" using s_ne by (simp add: R_def)
    show "\<not> WHATWG_C0_CONTROL_OR_SPACE (hd R)"
      using sf(3) s_ne by (simp add: R_def)
    show "\<forall>x \<in> set R. x \<notin> set UNSAFE_URL_BYTES_TO_REMOVE"
    proof
      fix x assume "x \<in> set R"
      then consider "x \<in> set s" | "x \<in> set ''://''" | "x \<in> set n" | "x \<in> set q"
        unfolding R_def by auto
      then show "x \<notin> set UNSAFE_URL_BYTES_TO_REMOVE"
      proof cases
        case 1
        with sf(1) show ?thesis by simp
      next
        case 2
        then show ?thesis by (auto simp: UNSAFE_URL_BYTES_TO_REMOVE_def)
      next
        case 3
        then have "x \<in> set c" by (rule n_sub)
        with clean show ?thesis by simp
      next
        case 4
        then have "x \<in> set t" by (rule prefix_set [OF q_pre_t])
        then have "x \<in> set c" by (rule t_sub)
        with clean show ?thesis by simp
      qed
    qed
  qed
  have R_scheme: "split_scheme R = (s, ''//'' @ n @ q)"
    unfolding R_def
  proof (rule split_scheme_built [OF s_ne _ sf(2)])
    show "\<forall>x \<in> set s. x \<in> set scheme_chars \<and> lower_char x = x \<and> x \<noteq> CHR '':''"
      using sf(1) by simp
  qed
  have R_net: "net_split (''//'' @ n @ q) = (n, q)"
    using nf(1) q_hd by (rule net_split_built)
  have "normalize_url chk R = Inr (s @ ''://'' @ n @ rstrip_char (CHR ''/'') (ppath s (path_of q)))"
    by (simp only: normalize_url_parts R_clean R_scheme R_net fst_conv snd_conv ok if_True)
  also have "rstrip_char (CHR ''/'') (ppath s (path_of q)) = q"
    unfolding q_path ppath_id [OF q_semi] unfolding q_def by (rule rstrip_idem)
  finally show "normalize_url chk (scheme p @ ''://'' @ netloc p @ rstrip_char (CHR ''/'') (path p))
         = Inr (scheme p @ ''://'' @ netloc p @ rstrip_char (CHR ''/'') (path p))"
    unfolding R_def q_def fields .
qed

text \<open>
  C9, amended: \<open>normalize_url\<close> is idempotent on every URL that parses with a scheme and
  a host and has no \<open>;\<close> in its path; a URL and the same URL followed by a fragment have
  the same normal form (or raise the same error); so do a URL without \<open>;\<close> and the same URL
  followed by a slash.
\<close>

theorem normalize_url_absolute:
  "(\<forall>p. urlparse chk u = Inr p \<and> scheme p \<noteq> [] \<and> netloc p \<noteq> []
          \<and> CHR '';'' \<notin> set (path p)
        \<longrightarrow> (\<exists>r. normalize_url chk u = Inr r \<and> normalize_url chk r = Inr r))
   \<and> normalize_url chk (u @ ''#'' @ f) = normalize_url chk u
   \<and> (CHR '';'' \<notin> set u \<longrightarrow> normalize_url chk (u @ ''/'') = normalize_url chk u)"
  using normalize_url_idem [of chk u] normalize_url_fragment [of chk u f]
    normalize_url_slash [of u chk]
  by blast

theorem normalize_url_absolute_witness:
  "normalize_url no_bracket_check ''HTTPS://example.com/About/'' = Inr ''https://example.com/About''
   \<and> normalize_url no_bracket_check ''https://example.com/About'' = Inr ''https://example.com/About''
   \<and> normalize_url no_bracket_check (''https://example.com/About'' @ ''#'' @ ''team'')
       = normalize_url no_bracket_check ''https://example.com/About''
   \<and> normalize_url no_bracket_check (''https://example.com/About'' @ ''/'')
       = normalize_url no_bracket_check ''https://example.com/About''"
proof -
  have p: "urlparse no_bracket_check ''HTTPS://example.com/About/''
           = Inr \<lparr>scheme = ''https'', netloc = ''example.com'', path = ''/About/'',
                  params = [], query = [], fragment = []\<rparr>"
    by code_simp
  have n: "normalize_url no_bracket_check ''HTTPS://example.com/About/''
           = Inr ''https://example.com/About''"
    by code_simp
  have semi: "CHR '';'' \<notin> set ''https://example.com/About''"
    by simp
  have "\<exists>r. normalize_url no_bracket_check ''HTTPS://example.com/About/'' = Inr r
            \<and> normalize_url no_bracket_check r = Inr r"
    using normalize_url_absolute [of no_bracket_check "''HTTPS://example.com/About/''" "[]"] p
    by simp
  with n have a: "normalize_url no_bracket_check ''https://example.com/About''
                  = Inr ''https://example.com/About''"
    by auto
  have b: "normalize_url no_bracket_check (''https://example.com/About'' @ ''#'' @ ''team'')
           = normalize_url no_bracket_check ''https://example.com/About''"
    using normalize_url_absolute [of no_bracket_check "''https://example.com/About''" "''team''"]
    by blast
  have c: "normalize_url no_bracket_check (''https://example.com/About'' @ ''/'')
           = normalize_url no_bracket_check ''https://example.com/About''"
    using normalize_url_absolute [of no_bracket_check "''https://example.com/About''" "[]"] semi
    by blast
  show ?thesis using n a b c by blast
qed

end
